theory Spec2Isabelle
  imports Main "HOL-Library.AList"
begin

section \<open>The structural type system consumed by the commit code\<close>

text \<open>
  The commit code of package \<open>datas\<close> builds and inspects types of package \<open>types\<close>.
  A type is a kind together with a description: element types for the compound kinds,
  a name and an ordered list of named fields for a struct, a level for a cycle
  placeholder.
\<close>

datatype NomsKind =
  BoolKind | NumberKind | StringKind | BlobKind | ValueKind | ListKind | MapKind
  | RefKind | SetKind | StructKind | TypeKind | CycleKind | UnionKind

datatype ntype =
  BoolType | NumberType | StringType | BlobType | ValueType | TypeType
  | ListT ntype
  | MapT ntype ntype
  | RefT ntype
  | SetT ntype
  | StructT string "(string \<times> ntype) list"
  | UnionT "ntype list"
  | CycleT nat

fun Kind :: "ntype \<Rightarrow> NomsKind" where
  "Kind BoolType = BoolKind"
| "Kind NumberType = NumberKind"
| "Kind StringType = StringKind"
| "Kind BlobType = BlobKind"
| "Kind ValueType = ValueKind"
| "Kind TypeType = TypeKind"
| "Kind (ListT _) = ListKind"
| "Kind (MapT _ _) = MapKind"
| "Kind (RefT _) = RefKind"
| "Kind (SetT _) = SetKind"
| "Kind (StructT _ _) = StructKind"
| "Kind (UnionT _) = UnionKind"
| "Kind (CycleT _) = CycleKind"

text \<open>Every failed \<open>d.PanicIfFalse\<close>, failed type assertion and nil dereference is a value.\<close>

datatype error = PanicIfFalse | TypeAssertion | NilDereference

type_synonym 'a result = "error + 'a"

definition MakeSetType :: "ntype \<Rightarrow> ntype" where
  "MakeSetType t = SetT t"

definition MakeRefType :: "ntype \<Rightarrow> ntype" where
  "MakeRefType t = RefT t"

definition MakeCycleType :: "nat \<Rightarrow> ntype" where
  "MakeCycleType level = CycleT level"

definition MakeStructType :: "string \<Rightarrow> string list \<Rightarrow> ntype list \<Rightarrow> ntype" where
  "MakeStructType name fieldNames fieldTypes = StructT name (zip fieldNames fieldTypes)"

definition EmptyStructType :: ntype where
  "EmptyStructType = MakeStructType [] [] []"

text \<open>
  Modelled from the spec: \<open>types.MakeUnionType\<close> is not part of the sources. The spec
  names its semantics as union flattening, with unioning idempotent
  (\<open>union(T, T) == T\<close>): the members of argument unions are spliced in, duplicates are
  dropped, and a union of one member is that member. Members are kept in the order of
  their last occurrence, and types are compared member by member in that order: two
  unions of the same members in different orders are different types here.
\<close>

fun unionMembers :: "ntype \<Rightarrow> ntype list" where
  "unionMembers (UnionT ts) = ts"
| "unionMembers t = [t]"

definition MakeUnionType :: "ntype list \<Rightarrow> ntype" where
  "MakeUnionType ts =
     (case remdups (concat (map unionMembers ts)) of
        [t] \<Rightarrow> t
      | us \<Rightarrow> UnionT us)"

text \<open>
  Modelled from the spec: \<open>Type.Equals\<close> is structural equality of types.
\<close>

definition Equals :: "ntype \<Rightarrow> ntype \<Rightarrow> bool" where
  "Equals a b = (a = b)"

text \<open>\<open>StructDesc.Field\<close>: the type of the named field, nil when there is none.\<close>

definition Field :: "(string \<times> ntype) list \<Rightarrow> string \<Rightarrow> ntype option" where
  "Field fieldDescs name = map_of fieldDescs name"

section \<open>Computing the type of a commit\<close>

definition ParentsField :: string where "ParentsField = ''parents''"
definition ValueField :: string where "ValueField = ''value''"
definition MetaField :: string where "MetaField = ''meta''"

definition makeCommitType :: "ntype \<Rightarrow> ntype list \<Rightarrow> ntype \<Rightarrow> ntype list \<Rightarrow> ntype" where
  "makeCommitType valueType parentsValueTypes metaType parentsMetaTypes =
     (let tmp = parentsValueTypes @ [valueType];
          parentsValueUnionType = MakeUnionType tmp;
          tmp2 = parentsMetaTypes @ [metaType];
          parentsMetaUnionType = MakeUnionType tmp2;
          fieldNames = [MetaField, ParentsField, ValueField];
          parentsType =
            (if Equals parentsValueUnionType valueType \<and> Equals parentsMetaUnionType metaType
             then MakeSetType (MakeRefType (MakeCycleType 0))
             else MakeSetType (MakeRefType
                    (MakeStructType ''Commit'' fieldNames
                       [parentsMetaUnionType,
                        MakeSetType (MakeRefType (MakeCycleType 0)),
                        parentsValueUnionType])));
          fieldTypes = [metaType, parentsType, valueType]
      in MakeStructType ''Commit'' fieldNames fieldTypes)"

definition getSetElementType :: "ntype \<Rightarrow> ntype result" where
  "getSetElementType t = (case t of SetT e \<Rightarrow> Inr e | _ \<Rightarrow> Inl PanicIfFalse)"

definition getRefElementType :: "ntype \<Rightarrow> ntype result" where
  "getRefElementType t = (case t of RefT e \<Rightarrow> Inr e | _ \<Rightarrow> Inl PanicIfFalse)"

text \<open>
  A field the struct does not have makes \<open>Field\<close> return nil, and the code goes on
  with the nil type until \<open>MakeUnionType\<close> dereferences it; the model reports that
  panic at the lookup already.
\<close>

definition fieldTypeFromCommit :: "ntype \<Rightarrow> string \<Rightarrow> ntype result" where
  "fieldTypeFromCommit t fieldName =
     (case t of
        StructT name fieldDescs \<Rightarrow>
          if name = ''Commit''
          then (case Field fieldDescs fieldName of
                  Some ft \<Rightarrow> Inr ft
                | None \<Rightarrow> Inl NilDereference)
          else Inl PanicIfFalse
      | _ \<Rightarrow> Inl PanicIfFalse)"

definition fieldTypeFromRefOfCommit :: "ntype \<Rightarrow> string \<Rightarrow> ntype result" where
  "fieldTypeFromRefOfCommit t fieldName =
     (case getRefElementType t of
        Inl e \<Rightarrow> Inl e
      | Inr e \<Rightarrow> fieldTypeFromCommit e fieldName)"

text \<open>The loop over the members of a union element type stops at the first panic.\<close>

fun fieldTypesFromRefs :: "ntype list \<Rightarrow> string \<Rightarrow> ntype list result" where
  "fieldTypesFromRefs [] fieldName = Inr []"
| "fieldTypesFromRefs (rt # rts) fieldName =
     (case fieldTypeFromRefOfCommit rt fieldName of
        Inl e \<Rightarrow> Inl e
      | Inr ft \<Rightarrow>
          (case fieldTypesFromRefs rts fieldName of
             Inl e \<Rightarrow> Inl e
           | Inr fts \<Rightarrow> Inr (ft # fts)))"

definition valueTypesFromParents :: "ntype \<Rightarrow> string \<Rightarrow> ntype list result" where
  "valueTypesFromParents parentsType fieldName =
     (case getSetElementType parentsType of
        Inl e \<Rightarrow> Inl e
      | Inr elemType \<Rightarrow>
          (case elemType of
             UnionT elemTypes \<Rightarrow> fieldTypesFromRefs elemTypes fieldName
           | _ \<Rightarrow> fieldTypesFromRefs [elemType] fieldName))"

definition valueCommitType :: ntype where
  "valueCommitType = makeCommitType ValueType [] EmptyStructType []"

text \<open>
  \<open>types.IsSubtype\<close> is not part of the sources; \<open>IsCommitType\<close> takes the subtype
  test as its first argument.
\<close>

definition IsCommitType :: "(ntype \<Rightarrow> ntype \<Rightarrow> bool) \<Rightarrow> ntype \<Rightarrow> bool" where
  "IsCommitType IsSubtype t = IsSubtype valueCommitType t"

definition IsRefOfCommitType :: "(ntype \<Rightarrow> ntype \<Rightarrow> bool) \<Rightarrow> ntype \<Rightarrow> bool" where
  "IsRefOfCommitType IsSubtype t =
     (case t of RefT e \<Rightarrow> IsCommitType IsSubtype e | _ \<Rightarrow> False)"


section \<open>Values, references and the value reader\<close>

text \<open>
  A \<open>types.Ref\<close> carries the hash of its target, its height (a \<open>uint64\<close>, which the
  commit code only compares) and the type of the target. A value is a reference, a set,
  a struct, or any other value, of which only its type and the references it holds
  matter here. Sets and structs carry the type they were built with.
\<close>

type_synonym hash = nat

record Ref =
  TargetHash :: hash
  Height :: nat
  TargetType :: ntype

datatype Value =
  RefV Ref
  | SetV NSet
  | StructV Struct
  | OtherV ntype nat "Ref list"
and NSet = NSet ntype "Value list"
and Struct = Struct ntype "(string \<times> Value) list"

fun setType :: "NSet \<Rightarrow> ntype" where
  "setType (NSet st vs) = st"

fun elems :: "NSet \<Rightarrow> Value list" where
  "elems (NSet st vs) = vs"

fun structType :: "Struct \<Rightarrow> ntype" where
  "structType (Struct st fs) = st"

fun structFields :: "Struct \<Rightarrow> (string \<times> Value) list" where
  "structFields (Struct st fs) = fs"

fun TypeOf :: "Value \<Rightarrow> ntype" where
  "TypeOf (RefV r) = MakeRefType (TargetType r)"
| "TypeOf (SetV s) = setType s"
| "TypeOf (StructV s) = structType s"
| "TypeOf (OtherV vt d rs) = vt"

text \<open>\<open>Struct.Get\<close> panics when the struct has no field of that name.\<close>

definition Get :: "Struct \<Rightarrow> string \<Rightarrow> Value result" where
  "Get s n = (case map_of (structFields s) n of Some v \<Rightarrow> Inr v | None \<Rightarrow> Inl PanicIfFalse)"

text \<open>The type assertions \<open>v.(types.Set)\<close>, \<open>v.(types.Ref)\<close> and \<open>v.(types.Struct)\<close>.\<close>

definition asSet :: "Value \<Rightarrow> NSet result" where
  "asSet v = (case v of SetV s \<Rightarrow> Inr s | _ \<Rightarrow> Inl TypeAssertion)"

definition asRef :: "Value \<Rightarrow> Ref result" where
  "asRef v = (case v of RefV r \<Rightarrow> Inr r | _ \<Rightarrow> Inl TypeAssertion)"

text \<open>
  The value reader resolves a hash to the value stored under it, or to nil.
  \<open>r.TargetValue(vr).(types.Struct)\<close> panics on nil and on a value that is no struct.
\<close>

type_synonym ValueReader = "hash \<Rightarrow> Value option"

definition TargetValue :: "Ref \<Rightarrow> ValueReader \<Rightarrow> Value option" where
  "TargetValue r vr = vr (TargetHash r)"

definition TargetStruct :: "Ref \<Rightarrow> ValueReader \<Rightarrow> Struct result" where
  "TargetStruct r vr =
     (case TargetValue r vr of Some (StructV c) \<Rightarrow> Inr c | _ \<Rightarrow> Inl TypeAssertion)"

text \<open>
  Modelled from the spec: the set operations of package \<open>types\<close> (no duplicates; the
  type of a set is the set type of the union of its element types).
\<close>

definition NewSet :: "Value list \<Rightarrow> NSet" where
  "NewSet vs = NSet (MakeSetType (MakeUnionType (map TypeOf (remdups vs)))) (remdups vs)"

definition Has :: "NSet \<Rightarrow> Value \<Rightarrow> bool" where
  "Has s v = (v \<in> set (elems s))"

definition Empty :: "NSet \<Rightarrow> bool" where
  "Empty s = (elems s = [])"

definition Insert :: "NSet \<Rightarrow> Value list \<Rightarrow> NSet" where
  "Insert s vs = NewSet (elems s @ vs)"

text \<open>
  Modelled from the spec: the references a value holds (its chunks), not followed into
  their targets, and \<open>types.NewRef\<close>, whose height is one more than the greatest height
  among them, 1 for a value that holds none. The content hash is a parameter.
\<close>

fun chunks :: "Value \<Rightarrow> Ref list"
  and chunksSet :: "NSet \<Rightarrow> Ref list"
  and chunksStruct :: "Struct \<Rightarrow> Ref list"
  and chunksList :: "Value list \<Rightarrow> Ref list"
  and chunksFields :: "(string \<times> Value) list \<Rightarrow> Ref list" where
  "chunks (RefV r) = [r]"
| "chunks (SetV s) = chunksSet s"
| "chunks (StructV s) = chunksStruct s"
| "chunks (OtherV vt d rs) = rs"
| "chunksSet (NSet st vs) = chunksList vs"
| "chunksStruct (Struct st fs) = chunksFields fs"
| "chunksList [] = []"
| "chunksList (v # vs) = chunks v @ chunksList vs"
| "chunksFields [] = []"
| "chunksFields (f # fs) = chunks (snd f) @ chunksFields fs"

definition maxChunkHeight :: "Value \<Rightarrow> nat" where
  "maxChunkHeight v = fold max (map Height (chunks v)) 0"

definition NewRef :: "(Value \<Rightarrow> hash) \<Rightarrow> Value \<Rightarrow> Ref" where
  "NewRef hashOf v =
     \<lparr>TargetHash = hashOf v, Height = maxChunkHeight v + 1, TargetType = TypeOf v\<rparr>"

section \<open>Creating a commit\<close>

text \<open>
  Modelled from the spec: \<open>types.NewStructWithType\<close> builds the struct value from the
  type and the field values, in the order of the type's fields.
\<close>

definition NewStructWithType :: "ntype \<Rightarrow> Value list \<Rightarrow> Struct" where
  "NewStructWithType st data =
     (case st of
        StructT name fieldDescs \<Rightarrow> Struct st (zip (map fst fieldDescs) data)
      | _ \<Rightarrow> Struct st [])"

definition NewCommit :: "Value \<Rightarrow> NSet \<Rightarrow> Struct \<Rightarrow> Struct result" where
  "NewCommit v parents meta =
     (case valueTypesFromParents (setType parents) ValueField of
        Inl e \<Rightarrow> Inl e
      | Inr parentsValueTypes \<Rightarrow>
          (case valueTypesFromParents (setType parents) MetaField of
             Inl e \<Rightarrow> Inl e
           | Inr parentsMetaTypes \<Rightarrow>
               Inr (NewStructWithType
                      (makeCommitType (TypeOf v) parentsValueTypes
                         (structType meta) parentsMetaTypes)
                      [StructV meta, SetV parents, v])))"

section \<open>Descent\<close>

text \<open>The inner iteration of \<open>getAncestors\<close> over the parents of one commit.\<close>

fun parentsAtLeast :: "Value list \<Rightarrow> nat \<Rightarrow> Value list result" where
  "parentsAtLeast [] minHeight = Inr []"
| "parentsAtLeast (v # vs) minHeight =
     (case asRef v of
        Inl e \<Rightarrow> Inl e
      | Inr r \<Rightarrow>
          (case parentsAtLeast vs minHeight of
             Inl e \<Rightarrow> Inl e
           | Inr next \<Rightarrow> Inr (if Height r \<ge> minHeight then v # next else next)))"

text \<open>The outer iteration, with the set \<open>ancestors\<close> built so far.\<close>

fun getAncestorsIter :: "Value list \<Rightarrow> nat \<Rightarrow> ValueReader \<Rightarrow> NSet \<Rightarrow> NSet result" where
  "getAncestorsIter [] minHeight vr ancestors = Inr ancestors"
| "getAncestorsIter (v # vs) minHeight vr ancestors =
     (case asRef v of
        Inl e \<Rightarrow> Inl e
      | Inr r \<Rightarrow>
          (case TargetStruct r vr of
             Inl e \<Rightarrow> Inl e
           | Inr c \<Rightarrow>
               if Height r > minHeight
               then (case Get c ParentsField of
                       Inl e \<Rightarrow> Inl e
                     | Inr pv \<Rightarrow>
                         (case asSet pv of
                            Inl e \<Rightarrow> Inl e
                          | Inr ps \<Rightarrow>
                              (case parentsAtLeast (elems ps) minHeight of
                                 Inl e \<Rightarrow> Inl e
                               | Inr next \<Rightarrow>
                                   getAncestorsIter vs minHeight vr (Insert ancestors next))))
               else getAncestorsIter vs minHeight vr ancestors))"

definition getAncestors :: "NSet \<Rightarrow> nat \<Rightarrow> ValueReader \<Rightarrow> NSet result" where
  "getAncestors commits minHeight vr = getAncestorsIter (elems commits) minHeight vr (NewSet [])"

text \<open>
  The loop of \<open>CommitDescendsFrom\<close> may run forever on a reader whose references go
  round in a circle; not returning is \<open>None\<close>.
\<close>

partial_function (option) descendsLoop :: "NSet \<Rightarrow> Ref \<Rightarrow> ValueReader \<Rightarrow> bool result option" where
  "descendsLoop ancestors ancestor vr =
     (if \<not> Has ancestors (RefV ancestor)
      then (if Empty ancestors then Some (Inr False)
            else (case getAncestors ancestors (Height ancestor) vr of
                    Inl e \<Rightarrow> Some (Inl e)
                  | Inr ancestors' \<Rightarrow> descendsLoop ancestors' ancestor vr))
      else Some (Inr True))"

declare descendsLoop.simps [code]

definition CommitDescendsFrom :: "Struct \<Rightarrow> Ref \<Rightarrow> ValueReader \<Rightarrow> bool result option" where
  "CommitDescendsFrom commit ancestor vr =
     (case Get commit ParentsField of
        Inl e \<Rightarrow> Some (Inl e)
      | Inr pv \<Rightarrow>
          (case asSet pv of
             Inl e \<Rightarrow> Some (Inl e)
           | Inr ancestors \<Rightarrow> descendsLoop ancestors ancestor vr))"

section \<open>Common ancestor\<close>

text \<open>
  Modelled from the spec: the height-ordered frontier \<open>types.RefByHeight\<close>, a slice of
  references that supports peeking the greatest height present (0 when empty), popping
  all references of that height, pushing at the back, and re-sorting by height,
  descending.
\<close>

definition MaxHeight :: "Ref list \<Rightarrow> nat" where
  "MaxHeight q = fold max (map Height q) 0"

definition PopRefsOfHeight :: "Ref list \<Rightarrow> nat \<Rightarrow> Ref list \<times> Ref list" where
  "PopRefsOfHeight q h = (filter (\<lambda>r. Height r = h) q, filter (\<lambda>r. Height r \<noteq> h) q)"

definition PushBack :: "Ref list \<Rightarrow> Ref \<Rightarrow> Ref list" where
  "PushBack q r = q @ [r]"

definition sortByHeight :: "Ref list \<Rightarrow> Ref list" where
  "sortByHeight q = rev (sort_key Height q)"

fun pushParents :: "Value list \<Rightarrow> Ref list \<Rightarrow> Ref list result" where
  "pushParents [] q = Inr q"
| "pushParents (v # vs) q =
     (case asRef v of
        Inl e \<Rightarrow> Inl e
      | Inr r \<Rightarrow> pushParents vs (PushBack q r))"

fun parentsToQueueIter :: "Ref list \<Rightarrow> Ref list \<Rightarrow> ValueReader \<Rightarrow> Ref list result" where
  "parentsToQueueIter [] q vr = Inr q"
| "parentsToQueueIter (r # refs) q vr =
     (case TargetStruct r vr of
        Inl e \<Rightarrow> Inl e
      | Inr c \<Rightarrow>
          (case Get c ParentsField of
             Inl e \<Rightarrow> Inl e
           | Inr pv \<Rightarrow>
               (case asSet pv of
                  Inl e \<Rightarrow> Inl e
                | Inr p \<Rightarrow>
                    (case pushParents (elems p) q of
                       Inl e \<Rightarrow> Inl e
                     | Inr q' \<Rightarrow> parentsToQueueIter refs q' vr))))"

definition parentsToQueue :: "Ref list \<Rightarrow> Ref list \<Rightarrow> ValueReader \<Rightarrow> Ref list result" where
  "parentsToQueue refs q vr =
     (case parentsToQueueIter refs q vr of
        Inl e \<Rightarrow> Inl e
      | Inr q' \<Rightarrow> Inr (sortByHeight q'))"

text \<open>
  A Go map from target hash to reference is a list of entries with distinct keys; a
  later assignment to a key replaces the entry. The order in which \<open>range\<close> visits the
  entries of a map is unspecified in Go and may change from one loop to the next: it
  is the parameter \<open>rangeOrder\<close>, which rearranges the entries. The zero \<open>Ref\<close> that
  \<open>findCommonRef\<close> returns when nothing is common, which no reference built by
  package \<open>types\<close> equals, is \<open>None\<close>.
\<close>

type_synonym RefMap = "(hash \<times> Ref) list"

definition toRefSet :: "Ref list \<Rightarrow> RefMap" where
  "toRefSet s = fold (\<lambda>r out. AList.update (TargetHash r) r out) s []"

definition findCommonRef :: "(RefMap \<Rightarrow> RefMap) \<Rightarrow> Ref list \<Rightarrow> Ref list \<Rightarrow> Ref option" where
  "findCommonRef rangeOrder a b =
     (let aSet = toRefSet a; bSet = toRefSet b
      in case find (\<lambda>(s, r). map_of bSet s \<noteq> None) (rangeOrder aSet) of
           Some (s, r) \<Rightarrow> Some r
         | None \<Rightarrow> None)"

text \<open>One run of the body of the loop of \<open>FindCommonAncestor\<close>.\<close>

datatype StepResult = Return Struct | Continue "Ref list" "Ref list"

definition FindCommonAncestorStep ::
  "(RefMap \<Rightarrow> RefMap) \<Rightarrow> ValueReader \<Rightarrow> Ref list \<Rightarrow> Ref list \<Rightarrow> StepResult result" where
  "FindCommonAncestorStep rangeOrder vr c1Q c2Q =
     (let c1Ht = MaxHeight c1Q; c2Ht = MaxHeight c2Q
      in if c1Ht = c2Ht
         then (let (c1Parents, c1Q') = PopRefsOfHeight c1Q c1Ht;
                   (c2Parents, c2Q') = PopRefsOfHeight c2Q c2Ht
               in case findCommonRef rangeOrder c1Parents c2Parents of
                    Some common \<Rightarrow>
                      (case TargetStruct common vr of
                         Inl e \<Rightarrow> Inl e
                       | Inr a \<Rightarrow> Inr (Return a))
                  | None \<Rightarrow>
                      (case parentsToQueue c1Parents c1Q' vr of
                         Inl e \<Rightarrow> Inl e
                       | Inr q1 \<Rightarrow>
                           (case parentsToQueue c2Parents c2Q' vr of
                              Inl e \<Rightarrow> Inl e
                            | Inr q2 \<Rightarrow> Inr (Continue q1 q2))))
         else if c1Ht > c2Ht
         then (let (c1Parents, c1Q') = PopRefsOfHeight c1Q c1Ht
               in case parentsToQueue c1Parents c1Q' vr of
                    Inl e \<Rightarrow> Inl e
                  | Inr q1 \<Rightarrow> Inr (Continue q1 c2Q))
         else (let (c2Parents, c2Q') = PopRefsOfHeight c2Q c2Ht
               in case parentsToQueue c2Parents c2Q' vr of
                    Inl e \<Rightarrow> Inl e
                  | Inr q2 \<Rightarrow> Inr (Continue c1Q q2)))"

text \<open>
  The loop; the result \<open>Inr None\<close> is the return with \<open>ok\<close> false, \<open>Inr (Some a)\<close>
  the return of \<open>a\<close> with \<open>ok\<close> true.
\<close>

partial_function (option) FindCommonAncestorLoop ::
  "(RefMap \<Rightarrow> RefMap) \<Rightarrow> ValueReader \<Rightarrow> Ref list \<Rightarrow> Ref list \<Rightarrow> Struct option result option" where
  "FindCommonAncestorLoop rangeOrder vr c1Q c2Q =
     (if c1Q \<noteq> [] \<and> c2Q \<noteq> []
      then (case FindCommonAncestorStep rangeOrder vr c1Q c2Q of
              Inl e \<Rightarrow> Some (Inl e)
            | Inr (Return a) \<Rightarrow> Some (Inr (Some a))
            | Inr (Continue q1 q2) \<Rightarrow> FindCommonAncestorLoop rangeOrder vr q1 q2)
      else Some (Inr None))"

declare FindCommonAncestorLoop.simps [code]

definition FindCommonAncestor ::
  "(ntype \<Rightarrow> ntype \<Rightarrow> bool) \<Rightarrow> (Value \<Rightarrow> hash) \<Rightarrow> (RefMap \<Rightarrow> RefMap) \<Rightarrow>
     Struct \<Rightarrow> Struct \<Rightarrow> ValueReader \<Rightarrow> Struct option result option" where
  "FindCommonAncestor IsSubtype hashOf rangeOrder c1 c2 vr =
     (if \<not> IsCommitType IsSubtype (structType c1) then Some (Inl PanicIfFalse)
      else if \<not> IsCommitType IsSubtype (structType c2) then Some (Inl PanicIfFalse)
      else FindCommonAncestorLoop rangeOrder vr
             [NewRef hashOf (StructV c1)] [NewRef hashOf (StructV c2)])"

section \<open>Dataset names\<close>

text \<open>
  The two regular expressions of \<open>dataset.go\<close>, as syntax trees, and the part of Go's
  \<open>regexp\<close> matching they need: \<open>matchEnds re s i\<close> lists the positions at which a match
  of \<open>re\<close> that starts at position \<open>i\<close> of \<open>s\<close> can end; \<open>^\<close> and \<open>$\<close> match at the
  beginning and at the end of the text only. \<open>MatchString\<close> looks for a match starting
  anywhere.
\<close>

datatype regexp =
  CharClass "(char \<times> char) list"
  | Plus regexp
  | Concat regexp regexp
  | BeginText
  | EndText

definition inClass :: "(char \<times> char) list \<Rightarrow> char \<Rightarrow> bool" where
  "inClass ranges c =
     list_ex (\<lambda>(lo, hi). (of_char lo :: nat) \<le> of_char c \<and> (of_char c :: nat) \<le> of_char hi) ranges"

fun plusEnds :: "(nat \<Rightarrow> nat list) \<Rightarrow> nat \<Rightarrow> nat list \<Rightarrow> nat list" where
  "plusEnds once 0 js = []"
| "plusEnds once (Suc n) js =
     (let js' = remdups (concat (map once js)) in js' @ plusEnds once n js')"

fun matchEnds :: "regexp \<Rightarrow> string \<Rightarrow> nat \<Rightarrow> nat list" where
  "matchEnds (CharClass ranges) s i =
     (if i < length s \<and> inClass ranges (s ! i) then [Suc i] else [])"
| "matchEnds (Plus re) s i = plusEnds (\<lambda>j. matchEnds re s j) (Suc (length s)) [i]"
| "matchEnds (Concat re1 re2) s i = concat (map (\<lambda>j. matchEnds re2 s j) (matchEnds re1 s i))"
| "matchEnds BeginText s i = (if i = 0 then [i] else [])"
| "matchEnds EndText s i = (if i = length s then [i] else [])"

definition MatchString :: "regexp \<Rightarrow> string \<Rightarrow> bool" where
  "MatchString re s = list_ex (\<lambda>i. matchEnds re s i \<noteq> []) [0..<Suc (length s)]"

definition DatasetRe :: regexp where
  "DatasetRe =
     Plus (CharClass
       [(CHR ''a'', CHR ''z''), (CHR ''A'', CHR ''Z''), (CHR ''0'', CHR ''9''),
        (CHR ''-'', CHR ''-''), (CHR ''_'', CHR ''_''), (CHR ''/'', CHR ''/'')])"

definition DatasetFullRe :: regexp where
  "DatasetFullRe = Concat BeginText (Concat DatasetRe EndText)"

definition IsValidDatasetName :: "string \<Rightarrow> bool" where
  "IsValidDatasetName name = MatchString DatasetFullRe name"

text \<open>The characters a dataset name may hold, as the specification lists them.\<close>

definition isAsciiLetter :: "char \<Rightarrow> bool" where
  "isAsciiLetter c =
     ((97 \<le> (of_char c :: nat) \<and> (of_char c :: nat) \<le> 122)
      \<or> (65 \<le> (of_char c :: nat) \<and> (of_char c :: nat) \<le> 90))"

definition isAsciiDigit :: "char \<Rightarrow> bool" where
  "isAsciiDigit c = (48 \<le> (of_char c :: nat) \<and> (of_char c :: nat) \<le> 57)"

definition isDatasetNameChar :: "char \<Rightarrow> bool" where
  "isDatasetNameChar c =
     (isAsciiLetter c \<or> isAsciiDigit c \<or> c = CHR ''-'' \<or> c = CHR ''_'' \<or> c = CHR ''/'')"

section \<open>A structural subtype test\<close>

text \<open>
  Modelled from the spec: \<open>types.IsSubtype\<close>, the structural subtype check of the type
  system, is not part of the sources. In this model a type is a subtype of itself and
  of \<open>Value\<close>; a union is required member-wise; compound types are compared element
  by element, an empty union being accepted as any element; a required struct
  accepts a struct of the same name, or of any name when its own is empty, that has
  each required field with a subtype; a required cycle placeholder stands for a struct
  that is already being compared and accepts any struct.
\<close>

function IsSubtypeModel :: "ntype \<Rightarrow> ntype \<Rightarrow> bool" where
  "IsSubtypeModel requiredType concreteType =
     (if requiredType = concreteType then True
      else (case requiredType of
              UnionT rs \<Rightarrow>
                (case concreteType of
                   UnionT cs \<Rightarrow> list_all (\<lambda>c. IsSubtypeModel requiredType c) cs
                 | _ \<Rightarrow> list_ex (\<lambda>r. IsSubtypeModel r concreteType) rs)
            | ValueType \<Rightarrow> True
            | ListT r \<Rightarrow>
                (case concreteType of
                   ListT c \<Rightarrow> c = UnionT [] \<or> IsSubtypeModel r c
                 | _ \<Rightarrow> False)
            | MapT rk rv \<Rightarrow>
                (case concreteType of
                   MapT ck cv \<Rightarrow>
                     (ck = UnionT [] \<or> IsSubtypeModel rk ck)
                     \<and> (cv = UnionT [] \<or> IsSubtypeModel rv cv)
                 | _ \<Rightarrow> False)
            | RefT r \<Rightarrow>
                (case concreteType of
                   RefT c \<Rightarrow> c = UnionT [] \<or> IsSubtypeModel r c
                 | _ \<Rightarrow> False)
            | SetT r \<Rightarrow>
                (case concreteType of
                   SetT c \<Rightarrow> c = UnionT [] \<or> IsSubtypeModel r c
                 | _ \<Rightarrow> False)
            | StructT rname rfields \<Rightarrow>
                (case concreteType of
                   StructT cname cfields \<Rightarrow>
                     (rname = [] \<or> rname = cname)
                     \<and> list_all (\<lambda>rf. list_ex (\<lambda>cf. fst cf = fst rf
                                    \<and> IsSubtypeModel (snd rf) (snd cf)) cfields) rfields
                 | _ \<Rightarrow> False)
            | CycleT level \<Rightarrow> (case concreteType of StructT cname cfields \<Rightarrow> True | _ \<Rightarrow> False)
            | _ \<Rightarrow> False))"
  by pat_completeness auto
termination
proof -
  have fieldSize: "size b \<le> size_list (size_prod (\<lambda>x. 0) size) xs"
    if "(a, b) \<in> set xs" for a :: string and b :: ntype and xs
    using that by (induction xs) auto
  show ?thesis
    by (relation "measure (\<lambda>(r, c). size r + size c)")
       (auto simp: less_Suc_eq_le size_list_estimation' intro!: le_SucI add_mono fieldSize)
qed

section \<open>The statements of the specification about commit types\<close>

text \<open>
  The type that the specification names as the maximally-general commit type,
  \<open>Commit{meta: Value, parents: Set<Ref<Struct{}>>, value: Value}\<close>.
\<close>

definition specGeneralCommitType :: ntype where
  "specGeneralCommitType =
     StructT ''Commit''
       [(''meta'', ValueType), (''parents'', SetT (RefT (StructT [] []))), (''value'', ValueType)]"

definition parentsFieldType :: "Struct \<Rightarrow> ntype option" where
  "parentsFieldType c =
     (case structType c of StructT name fieldDescs \<Rightarrow> Field fieldDescs ParentsField | _ \<Rightarrow> None)"

text \<open>
  The heterogeneous form as the specification words it: the element type of the
  \<open>parents\<close> set is a union with one member per distinct combination of value type and
  meta type, each member a reference to a struct named \<open>Commit\<close> with that value type
  and that meta type.
\<close>

definition comboOf :: "ntype \<Rightarrow> (string \<times> ntype option \<times> ntype option) option" where
  "comboOf member =
     (case member of
        RefT (StructT name fieldDescs) \<Rightarrow>
          Some (name, Field fieldDescs ValueField, Field fieldDescs MetaField)
      | _ \<Rightarrow> None)"

definition specUnionOfCommitStructs :: "(ntype \<times> ntype) list \<Rightarrow> ntype \<Rightarrow> bool" where
  "specUnionOfCommitStructs combos parentsType =
     (case parentsType of
        SetT e \<Rightarrow>
          distinct (unionMembers e)
          \<and> set (map comboOf (unionMembers e))
              = set (map (\<lambda>(vt, mt). Some (''Commit'', Some vt, Some mt)) combos)
          \<and> length (unionMembers e) = length (remdups combos)
      | _ \<Rightarrow> False)"

text \<open>
  The commits of a history in which every commit has a value of type \<open>T\<close> and a meta
  struct of type \<open>M\<close>: each is made by \<open>NewCommit\<close> from a set of references to
  earlier commits of the history (none, for a first commit).
\<close>

definition refsTo :: "(Value \<Rightarrow> hash) \<Rightarrow> Struct list \<Rightarrow> Value list" where
  "refsTo hashOf cs = map (\<lambda>c. RefV (NewRef hashOf (StructV c))) cs"

inductive homogeneous :: "(Value \<Rightarrow> hash) \<Rightarrow> ntype \<Rightarrow> ntype \<Rightarrow> Struct \<Rightarrow> bool"
  for hashOf :: "Value \<Rightarrow> hash" and T :: ntype and M :: ntype where
  commit:
    "list_all (homogeneous hashOf T M) ps \<Longrightarrow> TypeOf v = T \<Longrightarrow> structType meta = M \<Longrightarrow>
     NewCommit v (NewSet (refsTo hashOf ps)) meta = Inr c \<Longrightarrow>
     homogeneous hashOf T M c"

section \<open>Example values\<close>

definition exMeta :: Struct where
  "exMeta = Struct (StructT [] []) []"

definition exNumber :: "nat \<Rightarrow> Value" where
  "exNumber n = OtherV NumberType n []"

definition exString :: "nat \<Rightarrow> Value" where
  "exString n = OtherV StringType n []"

text \<open>A stand-in for the content hash that tells the example commits apart.\<close>

definition exHash :: "Value \<Rightarrow> hash" where
  "exHash v =
     (case v of
        StructV c \<Rightarrow>
          (case map_of (structFields c) ''value'' of
             Some (OtherV vt d rs) \<Rightarrow> d
           | _ \<Rightarrow> 0)
      | _ \<Rightarrow> 0)"

text \<open>The commit type with value type \<open>T\<close> and meta type \<open>M\<close> in its cyclic form.\<close>

definition cyclicCommitType :: "ntype \<Rightarrow> ntype \<Rightarrow> ntype" where
  "cyclicCommitType T M =
     StructT ''Commit'' [(''meta'', M), (''parents'', SetT (RefT (CycleT 0))), (''value'', T)]"

definition exCommit :: "Value \<Rightarrow> Value list \<Rightarrow> Struct" where
  "exCommit v parents =
     Struct (cyclicCommitType (TypeOf v) (StructT [] []))
       [(''meta'', StructV exMeta), (''parents'', SetV (NewSet parents)), (''value'', v)]"

section \<open>The commit graph seen through a value reader\<close>

text \<open>The references in a set all of whose elements are references.\<close>

fun refsOf :: "Value list \<Rightarrow> Ref list option" where
  "refsOf [] = Some []"
| "refsOf (v # vs) =
     (case v of
        RefV r \<Rightarrow> (case refsOf vs of Some rs \<Rightarrow> Some (r # rs) | None \<Rightarrow> None)
      | _ \<Rightarrow> None)"

text \<open>The parent references of a struct that has a \<open>parents\<close> field holding a set of references.\<close>

definition parentRefs :: "Struct \<Rightarrow> Ref list option" where
  "parentRefs c =
     (case Get c ParentsField of
        Inr (SetV s) \<Rightarrow> refsOf (elems s)
      | _ \<Rightarrow> None)"

text \<open>
  \<open>reaches vr q r\<close>: from the reference \<open>q\<close>, the reference \<open>r\<close> is arrived at by following
  \<open>parents\<close> edges through the reader, zero or more times. A reference is an ancestor
  reference of a commit when it is reached from one of the commit's parents.
\<close>

inductive reaches :: "ValueReader \<Rightarrow> Ref \<Rightarrow> Ref \<Rightarrow> bool" for vr :: ValueReader where
  here: "reaches vr r r"
| parent: "TargetStruct q vr = Inr c \<Longrightarrow> parentRefs c = Some ps \<Longrightarrow> p \<in> set ps \<Longrightarrow>
           reaches vr p r \<Longrightarrow> reaches vr q r"

definition ancestorRef :: "ValueReader \<Rightarrow> Struct \<Rightarrow> Ref \<Rightarrow> bool" where
  "ancestorRef vr commit r \<longleftrightarrow>
     (\<exists>ps p. parentRefs commit = Some ps \<and> p \<in> set ps \<and> reaches vr p r)"

text \<open>
  A set \<open>R\<close> of references to commits, closed under \<open>parents\<close>: each resolves to a struct
  whose \<open>parents\<close> field is a set of references in \<open>R\<close>, all of smaller height.
\<close>

definition commitRefs :: "ValueReader \<Rightarrow> Ref set \<Rightarrow> bool" where
  "commitRefs vr R \<longleftrightarrow>
     (\<forall>r\<in>R. \<exists>c ps. TargetStruct r vr = Inr c \<and> parentRefs c = Some ps \<and> set ps \<subseteq> R
                \<and> (\<forall>p\<in>set ps. Height p < Height r))"

text \<open>
  The height rule of the data model: the height of a reference is one more than the
  greatest height among the references its target holds. \<open>heightsByRule\<close> asks it of
  every reference held by a stored value.
\<close>

definition heightRule :: "ValueReader \<Rightarrow> Ref \<Rightarrow> bool" where
  "heightRule vr r =
     (case vr (TargetHash r) of Some v \<Rightarrow> Height r = maxChunkHeight v + 1 | None \<Rightarrow> True)"

definition heightsByRule :: "ValueReader \<Rightarrow> bool" where
  "heightsByRule vr \<longleftrightarrow> (\<forall>h v. vr h = Some v \<longrightarrow> (\<forall>r\<in>set (chunks v). heightRule vr r))"

text \<open>An order of iteration over a map visits the entries of the map, each of them.\<close>

definition isRangeOrder :: "(RefMap \<Rightarrow> RefMap) \<Rightarrow> bool" where
  "isRangeOrder rangeOrder \<longleftrightarrow> (\<forall>m. set (rangeOrder m) = set m)"

text \<open>
  The frontier that the specification describes for the next iteration of the descent:
  all parents of every commit in the frontier whose reference is higher than the
  ancestor reference.
\<close>

definition specNextFrontier :: "Value list \<Rightarrow> nat \<Rightarrow> ValueReader \<Rightarrow> Value set" where
  "specNextFrontier frontier h vr =
     (\<Union>v\<in>set frontier.
        case v of
          RefV r \<Rightarrow>
            if Height r > h
            then (case TargetStruct r vr of
                    Inr c \<Rightarrow> (case Get c ParentsField of Inr (SetV ps) \<Rightarrow> set (elems ps) | _ \<Rightarrow> {})
                  | Inl e \<Rightarrow> {})
            else {}
        | _ \<Rightarrow> {})"

definition heightAtLeast :: "nat \<Rightarrow> Value \<Rightarrow> bool" where
  "heightAtLeast h v = (case v of RefV r \<Rightarrow> Height r \<ge> h | _ \<Rightarrow> False)"

text \<open>
  The frontiers that the loop of \<open>FindCommonAncestor\<close> arrives at from \<open>c1Q\<close> and \<open>c2Q\<close>
  through iterations that found no shared reference.
\<close>

inductive frontiersAfter ::
  "(RefMap \<Rightarrow> RefMap) \<Rightarrow> ValueReader \<Rightarrow> Ref list \<Rightarrow> Ref list \<Rightarrow> Ref list \<Rightarrow> Ref list \<Rightarrow> bool"
  for rangeOrder :: "RefMap \<Rightarrow> RefMap" and vr :: ValueReader where
  start: "frontiersAfter rangeOrder vr c1Q c2Q c1Q c2Q"
| iteration:
    "c1Q \<noteq> [] \<Longrightarrow> c2Q \<noteq> [] \<Longrightarrow>
     FindCommonAncestorStep rangeOrder vr c1Q c2Q = Inr (Continue q1 q2) \<Longrightarrow>
     frontiersAfter rangeOrder vr q1 q2 q1' q2' \<Longrightarrow>
     frontiersAfter rangeOrder vr c1Q c2Q q1' q2'"

text \<open>
  The references among the parents of the target of a reference, and a set of
  references that is closed under them with heights going down.
\<close>

definition parentsOfRef :: "ValueReader \<Rightarrow> Ref \<Rightarrow> Ref set" where
  "parentsOfRef vr r =
     {p. \<exists>c s. TargetStruct r vr = Inr c \<and> Get c ParentsField = Inr (SetV s)
              \<and> RefV p \<in> set (elems s)}"

definition descending :: "ValueReader \<Rightarrow> Ref set \<Rightarrow> bool" where
  "descending vr R \<longleftrightarrow> (\<forall>r\<in>R. \<forall>p\<in>parentsOfRef vr r. p \<in> R \<and> Height p < Height r)"

text \<open>The rank of a frontier: 0 when it is empty, else one more than its greatest height.\<close>

definition frontierRank :: "Ref list \<Rightarrow> nat" where
  "frontierRank q = (if q = [] then 0 else Suc (MaxHeight q))"

text \<open>
  References of a set agree on the height of a target: the height rule makes the
  height of a reference a function of the content it refers to.
\<close>

definition sameHashSameHeight :: "Ref set \<Rightarrow> bool" where
  "sameHashSameHeight R \<longleftrightarrow>
     (\<forall>a\<in>R. \<forall>b\<in>R. TargetHash a = TargetHash b \<longrightarrow> Height a = Height b)"

text \<open>
  Two starting references share an ancestor when references with one target hash are
  reached from both.
\<close>

definition shareTarget :: "ValueReader \<Rightarrow> Ref \<Rightarrow> Ref \<Rightarrow> bool" where
  "shareTarget vr r1 r2 \<longleftrightarrow>
     (\<exists>a b. reaches vr r1 a \<and> reaches vr r2 b \<and> TargetHash a = TargetHash b)"

text \<open>An order of iteration that visits the entries of one key before all others.\<close>

definition visitFirst :: "hash \<Rightarrow> RefMap \<Rightarrow> RefMap" where
  "visitFirst s m = filter (\<lambda>e. fst e = s) m @ filter (\<lambda>e. fst e \<noteq> s) m"

section \<open>An example commit graph\<close>

definition exRef :: "Struct \<Rightarrow> Ref" where
  "exRef c = NewRef exHash (StructV c)"

definition exRootA :: Struct where
  "exRootA = exCommit (exNumber 11) []"

definition exRootB :: Struct where
  "exRootB = exCommit (exNumber 12) []"

definition exMid :: Struct where
  "exMid = exCommit (exNumber 13) [RefV (exRef exRootA)]"

definition exOther :: Struct where
  "exOther = exCommit (exNumber 14) [RefV (exRef exRootA)]"

definition exTop :: Struct where
  "exTop = exCommit (exNumber 15) [RefV (exRef exMid), RefV (exRef exRootB)]"

definition exHead :: Struct where
  "exHead = exCommit (exNumber 16) [RefV (exRef exTop)]"

definition exLeft :: Struct where
  "exLeft = exCommit (exNumber 21) [RefV (exRef exRootA), RefV (exRef exRootB)]"

definition exRight :: Struct where
  "exRight = exCommit (exNumber 22) [RefV (exRef exRootA), RefV (exRef exRootB)]"

definition exStoreEntries :: "(hash \<times> Value) list" where
  "exStoreEntries =
     [(11, StructV exRootA), (12, StructV exRootB), (13, StructV exMid),
      (14, StructV exOther), (15, StructV exTop), (16, StructV exHead),
      (21, StructV exLeft), (22, StructV exRight)]"

definition exStore :: ValueReader where
  "exStore = map_of exStoreEntries"

definition exRefs :: "Ref list" where
  "exRefs =
     [exRef exRootA, exRef exRootB, exRef exMid, exRef exOther, exRef exTop, exRef exHead,
      exRef exLeft, exRef exRight]"

section \<open>Properties: dataset names\<close>

lemma inClass_dataset:
  "inClass [(CHR ''a'', CHR ''z''), (CHR ''A'', CHR ''Z''), (CHR ''0'', CHR ''9''),
        (CHR ''-'', CHR ''-''), (CHR ''_'', CHR ''_''), (CHR ''/'', CHR ''/'')] c = isDatasetNameChar c"
proof -
  have e: "\<And>d. ((of_char d :: nat) \<le> of_char c \<and> (of_char c :: nat) \<le> of_char d) = (c = d)"
    by (auto simp: of_char_eq_iff)
  show ?thesis
    unfolding inClass_def isDatasetNameChar_def isAsciiLetter_def isAsciiDigit_def
    by (simp add: e del: of_char_Char) (simp)
qed

lemma plusEnds_Nil: "plusEnds once n [] = []"
  by (induction n) simp_all

text \<open>
  One or more characters of a class, started at \<open>j\<close>, can end at every position up to
  the end of the run of class characters that begins at \<open>j\<close>.
\<close>

lemma plusEnds_class:
  "k \<in> set (plusEnds (\<lambda>j. matchEnds (CharClass rs) s j) n [j]) \<longleftrightarrow>
     j < k \<and> k \<le> j + n \<and> k \<le> length s \<and> (\<forall>m. j \<le> m \<and> m < k \<longrightarrow> inClass rs (s ! m))"
proof (induction n arbitrary: j)
  case 0
  then show ?case by simp
next
  case (Suc n)
  show ?case
  proof (cases "j < length s \<and> inClass rs (s ! j)")
    case True
    have run: "(\<forall>m. j \<le> m \<and> m < k \<longrightarrow> inClass rs (s ! m)) \<longleftrightarrow>
          (\<forall>m. Suc j \<le> m \<and> m < k \<longrightarrow> inClass rs (s ! m))"
    proof
      assume "\<forall>m. j \<le> m \<and> m < k \<longrightarrow> inClass rs (s ! m)"
      then show "\<forall>m. Suc j \<le> m \<and> m < k \<longrightarrow> inClass rs (s ! m)" by simp
    next
      assume h: "\<forall>m. Suc j \<le> m \<and> m < k \<longrightarrow> inClass rs (s ! m)"
      show "\<forall>m. j \<le> m \<and> m < k \<longrightarrow> inClass rs (s ! m)"
      proof (intro allI impI)
        fix m assume "j \<le> m \<and> m < k"
        then show "inClass rs (s ! m)" using h True by (cases "m = j") auto
      qed
    qed
    have "k \<in> set (plusEnds (\<lambda>j. matchEnds (CharClass rs) s j) (Suc n) [j]) \<longleftrightarrow>
        k = Suc j \<or> k \<in> set (plusEnds (\<lambda>j. matchEnds (CharClass rs) s j) n [Suc j])"
      using True by (simp add: Let_def)
    also have "\<dots> \<longleftrightarrow> k = Suc j \<or> (Suc j < k \<and> k \<le> Suc j + n \<and> k \<le> length s
        \<and> (\<forall>m. Suc j \<le> m \<and> m < k \<longrightarrow> inClass rs (s ! m)))"
      by (simp only: Suc.IH)
    also have "\<dots> \<longleftrightarrow> j < k \<and> k \<le> j + Suc n \<and> k \<le> length s
        \<and> (\<forall>m. j \<le> m \<and> m < k \<longrightarrow> inClass rs (s ! m))"
      unfolding run using True by auto
    finally show ?thesis .
  next
    case False
    have "\<not> (j < k \<and> k \<le> length s \<and> (\<forall>m. j \<le> m \<and> m < k \<longrightarrow> inClass rs (s ! m)))"
      using False by (metis le_refl less_le_trans)
    then show ?thesis using False by (auto simp: Let_def plusEnds_Nil)
  qed
qed

lemma matchEnds_full:
  "matchEnds DatasetFullRe s i \<noteq> [] \<longleftrightarrow> i = 0 \<and> s \<noteq> [] \<and> (\<forall>c\<in>set s. isDatasetNameChar c)"
proof -
  let ?cls = "[(CHR ''a'', CHR ''z''), (CHR ''A'', CHR ''Z''), (CHR ''0'', CHR ''9''),
        (CHR ''-'', CHR ''-''), (CHR ''_'', CHR ''_''), (CHR ''/'', CHR ''/'')]"
  let ?E = "plusEnds (\<lambda>j. matchEnds (CharClass ?cls) s j) (Suc (length s)) [0]"
  have a: "matchEnds DatasetFullRe s i \<noteq> [] \<longleftrightarrow> i = 0 \<and> length s \<in> set ?E"
    by (auto simp: DatasetFullRe_def DatasetRe_def simp del: plusEnds.simps matchEnds.simps(1))
  have b: "length s \<in> set ?E \<longleftrightarrow> s \<noteq> [] \<and> (\<forall>m<length s. isDatasetNameChar (s ! m))"
    by (simp add: plusEnds_class inClass_dataset del: plusEnds.simps matchEnds.simps)
  show ?thesis unfolding a b by (simp add: all_set_conv_all_nth)
qed

text \<open>
  C10. \<open>IsValidDatasetName name\<close> is true if and only if \<open>name\<close> is not empty and every
  character of it is an ASCII letter, a digit, a hyphen, an underscore or a forward
  slash.
\<close>

theorem IsValidDatasetName_iff:
  "IsValidDatasetName name \<longleftrightarrow>
     name \<noteq> [] \<and>
     (\<forall>c\<in>set name. isAsciiLetter c \<or> isAsciiDigit c \<or> c = CHR ''-'' \<or> c = CHR ''_'' \<or> c = CHR ''/'')"
  by (auto simp: IsValidDatasetName_def MatchString_def list_ex_iff matchEnds_full
      isDatasetNameChar_def simp del: matchEnds.simps)

theorem IsValidDatasetName_iff_witness:
  "IsValidDatasetName ''ds-1/a_B'' \<and> \<not> IsValidDatasetName ''ds 1'' \<and> \<not> IsValidDatasetName ''''"
  using IsValidDatasetName_iff [of "''ds-1/a_B''"] IsValidDatasetName_iff [of "''ds 1''"]
    IsValidDatasetName_iff [of "''''"]
  by (simp add: isAsciiLetter_def isAsciiDigit_def)

section \<open>Properties: the type of a commit\<close>

lemma valueCommitType_eq:
  "valueCommitType =
     StructT ''Commit''
       [(''meta'', StructT [] []),
        (''parents'', SetT (RefT (CycleT 0))),
        (''value'', ValueType)]"
  by (simp add: valueCommitType_def makeCommitType_def MakeUnionType_def Equals_def
      MakeSetType_def MakeRefType_def MakeCycleType_def MakeStructType_def EmptyStructType_def
      MetaField_def ParentsField_def ValueField_def)

lemma makeCommitType_cyclic:
  assumes "MakeUnionType (pvs @ [T]) = T" and "MakeUnionType (pms @ [M]) = M"
  shows "makeCommitType T pvs M pms = cyclicCommitType T M"
  using assms
  by (simp add: makeCommitType_def Equals_def cyclicCommitType_def
      MakeSetType_def MakeRefType_def MakeCycleType_def MakeStructType_def
      MetaField_def ParentsField_def ValueField_def)

lemma makeCommitType_explicit:
  assumes "MakeUnionType (pvs @ [T]) \<noteq> T \<or> MakeUnionType (pms @ [M]) \<noteq> M"
  shows "makeCommitType T pvs M pms =
     StructT ''Commit''
       [(''meta'', M),
        (''parents'', SetT (RefT (cyclicCommitType (MakeUnionType (pvs @ [T]))
                                    (MakeUnionType (pms @ [M]))))),
        (''value'', T)]"
  using assms
  by (auto simp: makeCommitType_def Equals_def cyclicCommitType_def
      MakeSetType_def MakeRefType_def MakeCycleType_def MakeStructType_def
      MetaField_def ParentsField_def ValueField_def)

lemma parentsFieldType_NewStructWithType:
  "parentsFieldType (NewStructWithType (StructT name [(''meta'', mt), (''parents'', pt), (''value'', vt)]) data)
     = Some pt"
  by (simp add: parentsFieldType_def NewStructWithType_def Field_def ParentsField_def)

lemma remdups_absorb: "set xs \<subseteq> set zs \<Longrightarrow> remdups (xs @ zs) = remdups zs"
  by (induction xs) auto

lemma MakeUnionType_twice: "MakeUnionType [t, t] = MakeUnionType [t]"
  by (simp add: MakeUnionType_def remdups_absorb)

text \<open>The type of a set of references that all have one target type.\<close>

lemma MakeUnionType_same:
  assumes "set ts \<subseteq> {RefT C}"
  shows "MakeUnionType ts = (if ts = [] then UnionT [] else RefT C)"
proof -
  have ts: "ts = replicate (length ts) (RefT C)"
    using assms by (simp add: replicate_length_same subset_iff)
  have "concat (map unionMembers (replicate n (RefT C))) = replicate n (RefT C)" for n
    by (induction n) simp_all
  with ts have "concat (map unionMembers ts) = replicate (length ts) (RefT C)"
    by metis
  moreover have "remdups (replicate n (RefT C)) = (if n = 0 then [] else [RefT C])" for n
    by (induction n) auto
  ultimately show ?thesis
    by (simp add: MakeUnionType_def)
qed

lemma valueTypesFromParents_empty:
  "valueTypesFromParents (SetT (UnionT [])) fieldName = Inr []"
  by (simp add: valueTypesFromParents_def getSetElementType_def)

lemma valueTypesFromParents_cyclic_value:
  "valueTypesFromParents (SetT (RefT (cyclicCommitType T M))) ValueField = Inr [T]"
  by (simp add: valueTypesFromParents_def getSetElementType_def fieldTypeFromRefOfCommit_def
      getRefElementType_def fieldTypeFromCommit_def cyclicCommitType_def Field_def ValueField_def)

lemma valueTypesFromParents_cyclic_meta:
  "valueTypesFromParents (SetT (RefT (cyclicCommitType T M))) MetaField = Inr [M]"
  by (simp add: valueTypesFromParents_def getSetElementType_def fieldTypeFromRefOfCommit_def
      getRefElementType_def fieldTypeFromCommit_def cyclicCommitType_def Field_def MetaField_def)

lemma setType_NewSet_refsTo:
  assumes "\<forall>p\<in>set ps. structType p = C"
  shows "setType (NewSet (refsTo hashOf ps)) = SetT (if ps = [] then UnionT [] else RefT C)"
proof -
  let ?ts = "map TypeOf (remdups (refsTo hashOf ps))"
  have sub: "set ?ts \<subseteq> {RefT C}"
    using assms by (auto simp: refsTo_def NewRef_def MakeRefType_def)
  have ne: "?ts = [] \<longleftrightarrow> ps = []"
    by (simp add: refsTo_def)
  have "MakeUnionType ?ts = (if ps = [] then UnionT [] else RefT C)"
    using MakeUnionType_same[OF sub] ne by simp
  then show ?thesis by (simp add: NewSet_def MakeSetType_def)
qed

lemma NewCommit_on_cyclic_parents:
  assumes T: "MakeUnionType [T] = T" and M: "MakeUnionType [M] = M"
    and ps: "\<forall>p\<in>set ps. structType p = cyclicCommitType T M"
    and v: "TypeOf v = T" and m: "structType meta = M"
  shows "NewCommit v (NewSet (refsTo hashOf ps)) meta =
           Inr (NewStructWithType (cyclicCommitType T M)
                  [StructV meta, SetV (NewSet (refsTo hashOf ps)), v])"
proof (cases "ps = []")
  case True
  then show ?thesis
    using T M v m
    by (simp add: NewCommit_def setType_NewSet_refsTo valueTypesFromParents_empty
        makeCommitType_cyclic)
next
  case False
  have "MakeUnionType ([T] @ [T]) = T" "MakeUnionType ([M] @ [M]) = M"
    using T M by (simp_all add: MakeUnionType_twice)
  then show ?thesis
    using False v m
    by (simp add: NewCommit_def setType_NewSet_refsTo[OF ps] valueTypesFromParents_cyclic_value
        valueTypesFromParents_cyclic_meta makeCommitType_cyclic del: append.simps)
qed

lemma structType_NewStructWithType: "structType (NewStructWithType st data) = st"
  by (cases st) (simp_all add: NewStructWithType_def)

lemma homogeneous_structType:
  assumes "MakeUnionType [T] = T" and "MakeUnionType [M] = M"
    and "homogeneous hashOf T M c"
  shows "structType c = cyclicCommitType T M"
  using assms(3)
proof (induction rule: homogeneous.induct)
  case (commit ps v meta c)
  then have "\<forall>p\<in>set ps. structType p = cyclicCommitType T M"
    by (simp add: list_all_iff)
  from NewCommit_on_cyclic_parents[OF assms(1,2) this commit(2,3), of hashOf] commit(4)
  show ?case by (auto simp: structType_NewStructWithType)
qed

text \<open>
  C7, as the code has it. \<open>IsCommitType T\<close> is true if and only if \<open>T\<close> is a subtype of
  \<open>Commit{meta: Struct{}, parents: Set<Ref<Cycle<0>>>, value: Value}\<close>, the type
  \<open>makeCommitType\<close> computes for the value type \<open>Value\<close> and the empty struct as meta
  type; this holds for every subtype test.
\<close>

theorem IsCommitType_required_type:
  "IsCommitType IsSubtype T \<longleftrightarrow>
     IsSubtype (StructT ''Commit''
       [(''meta'', StructT [] []), (''parents'', SetT (RefT (CycleT 0))), (''value'', ValueType)]) T"
  by (simp add: IsCommitType_def valueCommitType_eq)

text \<open>
  The claim as stated fails: a struct named \<open>Commit\<close> whose meta field is a number is a
  subtype of \<open>Commit{meta: Value, parents: Set<Ref<Struct{}>>, value: Value}\<close>, and
  \<open>IsCommitType\<close> rejects it.
\<close>

theorem IsCommitType_spec_type_counterexample:
  "IsSubtypeModel specGeneralCommitType
     (StructT ''Commit''
       [(''meta'', NumberType), (''parents'', SetT (RefT (StructT [] []))), (''value'', NumberType)])
   \<and> \<not> IsCommitType IsSubtypeModel
     (StructT ''Commit''
       [(''meta'', NumberType), (''parents'', SetT (RefT (StructT [] []))), (''value'', NumberType)])"
  by code_simp

text \<open>
  C2. In a history whose commits all have value type \<open>T\<close> and meta type \<open>M\<close> (types
  that are their own union), \<open>NewCommit\<close> on any set of references to commits of the
  history returns a commit whose \<open>parents\<close> field has the type \<open>Set<Ref<Cycle<0>>>\<close>, and
  that commit belongs to the history again: the form holds at every length.
\<close>

theorem NewCommit_homogeneous_cyclic:
  assumes "MakeUnionType [T] = T" and "MakeUnionType [M] = M"
    and "list_all (homogeneous hashOf T M) ps"
    and "TypeOf v = T" and "structType meta = M"
  shows "\<exists>c. NewCommit v (NewSet (refsTo hashOf ps)) meta = Inr c
           \<and> parentsFieldType c = Some (SetT (RefT (CycleT 0)))
           \<and> homogeneous hashOf T M c"
proof -
  have "\<forall>p\<in>set ps. structType p = cyclicCommitType T M"
    using assms(3) homogeneous_structType[OF assms(1,2)] by (auto simp: list_all_iff)
  from NewCommit_on_cyclic_parents[OF assms(1,2) this assms(4,5), of hashOf]
  obtain c where c: "NewCommit v (NewSet (refsTo hashOf ps)) meta = Inr c"
    and ct: "c = NewStructWithType (cyclicCommitType T M)
                  [StructV meta, SetV (NewSet (refsTo hashOf ps)), v]"
    by simp
  have "parentsFieldType c = Some (SetT (RefT (CycleT 0)))"
    unfolding ct cyclicCommitType_def by (rule parentsFieldType_NewStructWithType)
  moreover have "homogeneous hashOf T M c"
    using assms(3,4,5) c by (rule homogeneous.commit)
  ultimately show ?thesis using c by blast
qed

lemma exCommit_first:
  "NewCommit (exNumber 11) (NewSet (refsTo exHash [])) exMeta = Inr (exCommit (exNumber 11) [])"
  by (simp add: NewCommit_def NewSet_def refsTo_def exMeta_def exNumber_def exCommit_def
      valueTypesFromParents_def getSetElementType_def MakeSetType_def MakeUnionType_def
      makeCommitType_def Equals_def MakeRefType_def MakeCycleType_def MakeStructType_def
      MetaField_def ParentsField_def ValueField_def NewStructWithType_def cyclicCommitType_def)

lemma exCommit_first_homogeneous:
  "homogeneous exHash NumberType (StructT [] []) (exCommit (exNumber 11) [])"
proof (rule homogeneous.commit)
  show "list_all (homogeneous exHash NumberType (StructT [] [])) []" by simp
  show "TypeOf (exNumber 11) = NumberType" by (simp add: exNumber_def)
  show "structType exMeta = StructT [] []" by (simp add: exMeta_def)
  show "NewCommit (exNumber 11) (NewSet (refsTo exHash [])) exMeta = Inr (exCommit (exNumber 11) [])"
    by (rule exCommit_first)
qed

theorem NewCommit_homogeneous_cyclic_witness:
  "\<exists>c. NewCommit (exNumber 12) (NewSet (refsTo exHash [exCommit (exNumber 11) []])) exMeta = Inr c
       \<and> parentsFieldType c = Some (SetT (RefT (CycleT 0)))
       \<and> homogeneous exHash NumberType (StructT [] []) c"
proof (rule NewCommit_homogeneous_cyclic)
  show "MakeUnionType [NumberType] = NumberType" by (simp add: MakeUnionType_def)
  show "MakeUnionType [StructT [] []] = StructT [] []" by (simp add: MakeUnionType_def)
  show "list_all (homogeneous exHash NumberType (StructT [] [])) [exCommit (exNumber 11) []]"
    by (simp add: exCommit_first_homogeneous)
  show "TypeOf (exNumber 12) = NumberType" by (simp add: exNumber_def)
  show "structType exMeta = StructT [] []" by (simp add: exMeta_def)
qed

text \<open>
  C1, as the code has it. When the union of the parents' value types with the new
  value type differs from the new value type, or the union of the parents' meta types
  with the new meta type differs from the new meta type, \<open>NewCommit\<close> returns a commit
  whose \<open>parents\<close> field has the type \<open>Set<Ref<Commit{meta, parents, value}>>\<close> with one
  inner struct: its \<open>meta\<close> is the union of the meta types, its \<open>value\<close> the union of the
  value types, its \<open>parents\<close> the cyclic \<open>Set<Ref<Cycle<0>>>\<close>.
\<close>

theorem NewCommit_heterogeneous:
  assumes "valueTypesFromParents (setType parents) ValueField = Inr pvs"
    and "valueTypesFromParents (setType parents) MetaField = Inr pms"
    and "MakeUnionType (pvs @ [TypeOf v]) \<noteq> TypeOf v
         \<or> MakeUnionType (pms @ [structType meta]) \<noteq> structType meta"
  shows "\<exists>c. NewCommit v parents meta = Inr c
           \<and> parentsFieldType c =
               Some (SetT (RefT (StructT ''Commit''
                 [(''meta'', MakeUnionType (pms @ [structType meta])),
                  (''parents'', SetT (RefT (CycleT 0))),
                  (''value'', MakeUnionType (pvs @ [TypeOf v]))])))"
  using assms(1,2) makeCommitType_explicit[OF assms(3)]
  by (simp add: NewCommit_def parentsFieldType_NewStructWithType cyclicCommitType_def)

lemma exCommit_parents_types:
  "valueTypesFromParents (setType (NewSet (refsTo exHash [exCommit (exNumber 11) []]))) ValueField
     = Inr [NumberType]"
  "valueTypesFromParents (setType (NewSet (refsTo exHash [exCommit (exNumber 11) []]))) MetaField
     = Inr [StructT [] []]"
  by (simp_all add: setType_NewSet_refsTo[where C = "cyclicCommitType NumberType (StructT [] [])"]
      exCommit_def exNumber_def valueTypesFromParents_cyclic_value valueTypesFromParents_cyclic_meta)

theorem NewCommit_heterogeneous_witness:
  "\<exists>c. NewCommit (exString 13) (NewSet (refsTo exHash [exCommit (exNumber 11) []])) exMeta = Inr c
       \<and> parentsFieldType c =
           Some (SetT (RefT (StructT ''Commit''
             [(''meta'', StructT [] []),
              (''parents'', SetT (RefT (CycleT 0))),
              (''value'', UnionT [NumberType, StringType])])))"
  using NewCommit_heterogeneous [of "NewSet (refsTo exHash [exCommit (exNumber 11) []])"
      "[NumberType]" "[StructT [] []]" "exString 13" exMeta]
  by (simp add: exCommit_parents_types exString_def exMeta_def MakeUnionType_def)

text \<open>
  The claim as stated fails: a number commit followed by a string commit has the two
  combinations (Number, Struct{}) and (String, Struct{}), and the \<open>parents\<close> field
  of the new commit is a set of references to one struct, not a union with a member
  for each combination.
\<close>

theorem NewCommit_union_of_structs_counterexample:
  "map_sum id parentsFieldType
       (NewCommit (exString 13) (NewSet (refsTo exHash [exCommit (exNumber 11) []])) exMeta)
     = Inr (Some (SetT (RefT (StructT ''Commit''
             [(''meta'', StructT [] []),
              (''parents'', SetT (RefT (CycleT 0))),
              (''value'', UnionT [NumberType, StringType])]))))
   \<and> \<not> specUnionOfCommitStructs [(NumberType, StructT [] []), (StringType, StructT [] [])]
         (SetT (RefT (StructT ''Commit''
             [(''meta'', StructT [] []),
              (''parents'', SetT (RefT (CycleT 0))),
              (''value'', UnionT [NumberType, StringType])])))"
proof -
  have "NewCommit (exString 13) (NewSet (refsTo exHash [exCommit (exNumber 11) []])) exMeta
      = Inr (NewStructWithType
          (makeCommitType StringType [NumberType] (StructT [] []) [StructT [] []])
          [StructV exMeta, SetV (NewSet (refsTo exHash [exCommit (exNumber 11) []])), exString 13])"
    by (simp add: NewCommit_def exCommit_parents_types exString_def exMeta_def)
  moreover have "makeCommitType StringType [NumberType] (StructT [] []) [StructT [] []]
      = StructT ''Commit''
          [(''meta'', StructT [] []),
           (''parents'', SetT (RefT (StructT ''Commit''
             [(''meta'', StructT [] []),
              (''parents'', SetT (RefT (CycleT 0))),
              (''value'', UnionT [NumberType, StringType])]))),
           (''value'', StringType)]"
    by (simp add: makeCommitType_def Equals_def MakeUnionType_def Let_def
      MakeSetType_def MakeRefType_def MakeCycleType_def MakeStructType_def
      MetaField_def ParentsField_def ValueField_def)
  ultimately show ?thesis
    by (simp add: parentsFieldType_NewStructWithType specUnionOfCommitStructs_def)
qed

section \<open>Properties: ancestry\<close>

text \<open>
  C8. \<open>FindCommonAncestor\<close> called with a \<open>c1\<close> or a \<open>c2\<close> whose type is not a commit type
  panics at once: whatever the reader holds, the result is the panic of
  \<open>d.PanicIfFalse\<close>, never a normal return.
\<close>

theorem FindCommonAncestor_not_commit_panics:
  assumes "\<not> IsCommitType IsSubtype (structType c1) \<or> \<not> IsCommitType IsSubtype (structType c2)"
  shows "FindCommonAncestor IsSubtype hashOf rangeOrder c1 c2 vr = Some (Inl PanicIfFalse)"
  using assms by (auto simp: FindCommonAncestor_def)

theorem FindCommonAncestor_not_commit_panics_witness:
  "\<not> IsCommitType IsSubtypeModel (structType exMeta)
   \<and> FindCommonAncestor IsSubtypeModel exHash id exMeta exRootA exStore = Some (Inl PanicIfFalse)"
proof -
  have h: "\<not> IsCommitType IsSubtypeModel (structType exMeta)"
    by code_simp
  then have "\<not> IsCommitType IsSubtypeModel (structType exMeta)
      \<or> \<not> IsCommitType IsSubtypeModel (structType exRootA)" by simp
  from h FindCommonAncestor_not_commit_panics [OF this, of exHash id exStore]
  show ?thesis by simp
qed

lemma set_elems_NewSet: "set (elems (NewSet vs)) = set vs"
  by (simp add: NewSet_def)

lemma set_elems_Insert: "set (elems (Insert s vs)) = set (elems s) \<union> set vs"
  by (simp add: Insert_def set_elems_NewSet)

lemma parentsAtLeast_Inr:
  "parentsAtLeast vs h = Inr nxt \<Longrightarrow> set nxt = {v \<in> set vs. heightAtLeast h v}"
proof (induction vs arbitrary: nxt)
  case Nil
  then show ?case by simp
next
  case (Cons v vs)
  from Cons.prems obtain r where v: "v = RefV r"
    by (cases v) (simp_all add: asRef_def)
  from Cons.prems v obtain n where n: "parentsAtLeast vs h = Inr n"
    and nxt: "nxt = (if Height r \<ge> h then v # n else n)"
    by (cases "parentsAtLeast vs h") (auto simp: asRef_def)
  have "heightAtLeast h v \<longleftrightarrow> Height r \<ge> h"
    by (simp add: heightAtLeast_def v)
  with Cons.IH[OF n] nxt show ?case by auto
qed

lemma getAncestorsIter_Inr:
  "getAncestorsIter vs h vr acc = Inr s \<Longrightarrow>
     set (elems s) = set (elems acc) \<union> {v \<in> specNextFrontier vs h vr. heightAtLeast h v}"
proof (induction vs arbitrary: acc)
  case Nil
  then show ?case by (simp add: specNextFrontier_def)
next
  case (Cons v vs)
  from Cons.prems obtain r where v: "v = RefV r"
    by (cases v) (simp_all add: asRef_def)
  from Cons.prems v obtain c where c: "TargetStruct r vr = Inr c"
    by (cases "TargetStruct r vr") (simp_all add: asRef_def)
  have split: "specNextFrontier (v # vs) h vr =
      (if Height r > h
       then (case Get c ParentsField of Inr (SetV ps) \<Rightarrow> set (elems ps) | _ \<Rightarrow> {})
       else {}) \<union> specNextFrontier vs h vr"
    by (simp add: specNextFrontier_def v c)
  show ?case
  proof (cases "Height r > h")
    case False
    with Cons.prems v c have "getAncestorsIter vs h vr acc = Inr s"
      by (simp add: asRef_def)
    from Cons.IH[OF this] False show ?thesis by (simp add: split)
  next
    case True
    from Cons.prems v c True obtain pv where g0: "Get c ParentsField = Inr pv"
      by (cases "Get c ParentsField") (simp_all add: asRef_def)
    from Cons.prems v c True g0 obtain ps where pv: "pv = SetV ps"
      by (cases pv) (simp_all add: asRef_def asSet_def)
    from Cons.prems v c True g0 pv obtain nxt where
      n: "parentsAtLeast (elems ps) h = Inr nxt"
      by (cases "parentsAtLeast (elems ps) h") (simp_all add: asRef_def asSet_def)
    have g: "Get c ParentsField = Inr (SetV ps)" using g0 pv by simp
    have rest: "getAncestorsIter vs h vr (Insert acc nxt) = Inr s"
      using Cons.prems v c True g n by (simp add: asRef_def asSet_def)
    from Cons.IH[OF rest] parentsAtLeast_Inr[OF n] True show ?thesis
      by (auto simp: split g set_elems_Insert)
  qed
qed

text \<open>
  C4, as the code has it. In an iteration of the descent whose frontier neither holds
  the ancestor reference nor is empty, and in which \<open>getAncestors\<close> does not panic, the
  loop goes on with a new frontier that holds, of the parents of every commit in the
  frontier whose reference is higher than the ancestor reference, those whose own
  height is at least the height of the ancestor reference.
\<close>

theorem descends_next_frontier:
  assumes "\<not> Has frontier (RefV ancestor)" and "\<not> Empty frontier"
    and "getAncestors frontier (Height ancestor) vr = Inr frontier'"
  shows "descendsLoop frontier ancestor vr = descendsLoop frontier' ancestor vr
         \<and> set (elems frontier') =
             {v \<in> specNextFrontier (elems frontier) (Height ancestor) vr.
                heightAtLeast (Height ancestor) v}"
proof
  show "descendsLoop frontier ancestor vr = descendsLoop frontier' ancestor vr"
    using assms by (subst descendsLoop.simps) simp
  show "set (elems frontier') =
      {v \<in> specNextFrontier (elems frontier) (Height ancestor) vr.
         heightAtLeast (Height ancestor) v}"
    using getAncestorsIter_Inr[OF assms(3)[unfolded getAncestors_def]]
    by (simp add: set_elems_NewSet)
qed

theorem descends_next_frontier_witness:
  "descendsLoop (NewSet [RefV (exRef exTop)]) (exRef exOther) exStore
     = descendsLoop (NewSet [RefV (exRef exMid)]) (exRef exOther) exStore
   \<and> set (elems (NewSet [RefV (exRef exMid)])) =
       {v \<in> specNextFrontier (elems (NewSet [RefV (exRef exTop)])) (Height (exRef exOther)) exStore.
          heightAtLeast (Height (exRef exOther)) v}"
proof -
  have 1: "\<not> Has (NewSet [RefV (exRef exTop)]) (RefV (exRef exOther))"
    by code_simp
  have 2: "\<not> Empty (NewSet [RefV (exRef exTop)])"
    by code_simp
  have 3: "getAncestors (NewSet [RefV (exRef exTop)]) (Height (exRef exOther)) exStore
      = Inr (NewSet [RefV (exRef exMid)])"
    by code_simp
  show ?thesis by (rule descends_next_frontier[OF 1 2 3])
qed

text \<open>
  The claim as stated fails: with the commit \<open>exTop\<close> (height 3, parents \<open>exMid\<close> of
  height 2 and \<open>exRootB\<close> of height 1) in the frontier and an ancestor reference of
  height 2, the parent \<open>exRootB\<close> belongs to the union of the parents and is left out
  of the new frontier, while the parent \<open>exMid\<close>, at the height of the ancestor
  reference, is kept.
\<close>

theorem descends_next_frontier_counterexample:
  "\<not> Has (NewSet [RefV (exRef exTop)]) (RefV (exRef exOther))
   \<and> \<not> Empty (NewSet [RefV (exRef exTop)])
   \<and> getAncestors (NewSet [RefV (exRef exTop)]) (Height (exRef exOther)) exStore
       = Inr (NewSet [RefV (exRef exMid)])
   \<and> RefV (exRef exRootB)
       \<in> specNextFrontier (elems (NewSet [RefV (exRef exTop)])) (Height (exRef exOther)) exStore
   \<and> RefV (exRef exRootB) \<notin> set (elems (NewSet [RefV (exRef exMid)]))
   \<and> RefV (exRef exMid) \<in> set (elems (NewSet [RefV (exRef exMid)]))
   \<and> Height (exRef exMid) = Height (exRef exOther)"
  by code_simp

subsection \<open>Heights and chunks\<close>

lemma fold_max_Max: "fold max xs (a::nat) = Max (set (a # xs))"
  by (simp only: Max.set_eq_fold)

lemma fold_max_ge: "x \<in> set xs \<Longrightarrow> x \<le> fold max xs (a::nat)"
  by (simp add: fold_max_Max)

lemma fold_max_le: "(\<forall>x\<in>set xs. x \<le> b) \<Longrightarrow> a \<le> b \<Longrightarrow> fold max xs (a::nat) \<le> b"
  by (simp add: fold_max_Max)

lemma fold_max_in:
  assumes "xs \<noteq> []"
  shows "fold max xs (0::nat) \<in> set xs"
proof -
  have "Max (set (0 # xs)) \<in> set (0 # xs)"
    by (rule Max_in) simp_all
  then have "fold max xs 0 = 0 \<or> fold max xs 0 \<in> set xs"
    by (simp add: fold_max_Max)
  moreover have "0 \<in> set xs" if "fold max xs 0 = 0"
  proof -
    from assms obtain x where x: "x \<in> set xs" by (cases xs) auto
    with fold_max_ge[OF this, of 0] that show ?thesis by simp
  qed
  ultimately show ?thesis by auto
qed

lemma MaxHeight_ge: "r \<in> set q \<Longrightarrow> Height r \<le> MaxHeight q"
  by (simp add: MaxHeight_def fold_max_ge)

lemma MaxHeight_le: "(\<forall>r\<in>set q. Height r \<le> b) \<Longrightarrow> MaxHeight q \<le> b"
  by (simp add: MaxHeight_def fold_max_le)

lemma MaxHeight_in: "q \<noteq> [] \<Longrightarrow> \<exists>r\<in>set q. Height r = MaxHeight q"
  using fold_max_in[of "map Height q"] by (auto simp: MaxHeight_def)

lemma chunksList_mem: "v \<in> set vs \<Longrightarrow> set (chunks v) \<subseteq> set (chunksList vs)"
  by (induction vs) auto

lemma chunksFields_mem: "f \<in> set fs \<Longrightarrow> set (chunks (snd f)) \<subseteq> set (chunksFields fs)"
  by (induction fs) auto

lemma parentsOfRef_chunks:
  assumes "TargetStruct r vr = Inr c" and "p \<in> parentsOfRef vr r"
  shows "p \<in> set (chunks (StructV c))"
proof -
  from assms obtain s where g: "Get c ParentsField = Inr (SetV s)" and p: "RefV p \<in> set (elems s)"
    by (auto simp: parentsOfRef_def)
  obtain st fs where c: "c = Struct st fs" by (cases c)
  obtain sst vs where s: "s = NSet sst vs" by (cases s)
  from g c have "(ParentsField, SetV s) \<in> set fs"
    by (auto simp: Get_def split: option.splits dest: map_of_SomeD)
  from chunksFields_mem[OF this] have "set (chunksList vs) \<subseteq> set (chunksFields fs)"
    by (simp add: s)
  moreover from chunksList_mem[of "RefV p" vs] p s have "p \<in> set (chunksList vs)" by simp
  ultimately show ?thesis by (auto simp: c)
qed

lemma TargetStruct_Inr: "TargetStruct r vr = Inr c \<longleftrightarrow> vr (TargetHash r) = Some (StructV c)"
  by (auto simp: TargetStruct_def TargetValue_def split: option.splits Value.splits)

lemma heightRule_lower:
  assumes "heightRule vr r" and "p \<in> parentsOfRef vr r"
  shows "Height p < Height r"
proof -
  from assms(2) obtain c where c: "TargetStruct r vr = Inr c"
    by (auto simp: parentsOfRef_def)
  then have v: "vr (TargetHash r) = Some (StructV c)" by (simp add: TargetStruct_Inr)
  from parentsOfRef_chunks[OF c assms(2)] have "Height p \<le> maxChunkHeight (StructV c)"
    by (simp add: maxChunkHeight_def fold_max_ge)
  with assms(1) v show ?thesis by (simp add: heightRule_def)
qed

lemma heightsByRule_descending:
  assumes "heightsByRule vr"
  shows "descending vr {r. heightRule vr r}"
  unfolding descending_def
proof (intro ballI conjI)
  fix r p assume r: "r \<in> {r. heightRule vr r}" and p: "p \<in> parentsOfRef vr r"
  from p obtain c where c: "TargetStruct r vr = Inr c"
    by (auto simp: parentsOfRef_def)
  then have "vr (TargetHash r) = Some (StructV c)" by (simp add: TargetStruct_Inr)
  with assms parentsOfRef_chunks[OF c p] show "p \<in> {r. heightRule vr r}"
    by (auto simp: heightsByRule_def)
  from r p show "Height p < Height r" by (simp add: heightRule_lower)
qed

subsection \<open>What one step of each search does to the frontier\<close>

lemma specNextFrontier_parentsOfRef:
  assumes "v \<in> specNextFrontier vs h vr" and "heightAtLeast h v"
  shows "\<exists>p r. v = RefV p \<and> h \<le> Height p \<and> RefV r \<in> set vs \<and> h < Height r
           \<and> p \<in> parentsOfRef vr r"
proof -
  from assms(2) obtain p where v: "v = RefV p" and hp: "h \<le> Height p"
    by (cases v) (simp_all add: heightAtLeast_def)
  from assms(1) obtain w where w: "w \<in> set vs" and 
    m: "v \<in> (case w of
          RefV r \<Rightarrow>
            if Height r > h
            then (case TargetStruct r vr of
                    Inr c \<Rightarrow> (case Get c ParentsField of Inr (SetV ps) \<Rightarrow> set (elems ps) | _ \<Rightarrow> {})
                  | Inl e \<Rightarrow> {})
            else {}
        | _ \<Rightarrow> {})"
    unfolding specNextFrontier_def by blast
  from m obtain r where wr: "w = RefV r" by (cases w) simp_all
  from m wr have hr: "h < Height r" by (simp split: if_splits)
  from m wr hr obtain c where c: "TargetStruct r vr = Inr c"
    by (cases "TargetStruct r vr") simp_all
  from m wr hr c obtain pv where g: "Get c ParentsField = Inr pv"
    by (cases "Get c ParentsField") simp_all
  from m wr hr c g obtain s where pv: "pv = SetV s" by (cases pv) simp_all
  from m wr hr c g pv have "v \<in> set (elems s)" by simp
  with v c g pv have "p \<in> parentsOfRef vr r" by (auto simp: parentsOfRef_def)
  with v hp w wr hr show ?thesis by blast
qed

lemma getAncestors_members:
  assumes "getAncestors F h vr = Inr F'" and "v \<in> set (elems F')"
  shows "\<exists>p r. v = RefV p \<and> h \<le> Height p \<and> RefV r \<in> set (elems F) \<and> h < Height r
           \<and> p \<in> parentsOfRef vr r"
proof -
  from getAncestorsIter_Inr[OF assms(1)[unfolded getAncestors_def]] assms(2)
  have "v \<in> specNextFrontier (elems F) h vr \<and> heightAtLeast h v"
    by (simp add: set_elems_NewSet)
  then show ?thesis using specNextFrontier_parentsOfRef by blast
qed

lemma descendsLoop_Empty: "elems F = [] \<Longrightarrow> descendsLoop F a vr = Some (Inr False)"
  by (subst descendsLoop.simps) (simp add: Has_def Empty_def)

lemma descendsLoop_terminates:
  assumes "descending vr R"
  shows "(\<forall>r. RefV r \<in> set (elems F) \<longrightarrow> r \<in> R \<and> Height r \<le> n)
           \<Longrightarrow> \<exists>res. descendsLoop F a vr = Some res"
proof (induction n arbitrary: F)
  case 0
  show ?case
  proof (cases "getAncestors F (Height a) vr")
    case (Inl e)
    then show ?thesis by (subst descendsLoop.simps) simp
  next
    case (Inr F')
    have "elems F' = []"
    proof (rule ccontr)
      assume "elems F' \<noteq> []"
      then obtain v where "v \<in> set (elems F')" by (cases "elems F'") auto
      from getAncestors_members[OF Inr this] obtain p r where
        "RefV r \<in> set (elems F)" "p \<in> parentsOfRef vr r" by blast
      with 0 assms show False by (fastforce simp: descending_def)
    qed
    then have "descendsLoop F' a vr = Some (Inr False)" by (rule descendsLoop_Empty)
    with Inr show ?thesis by (subst descendsLoop.simps) simp
  qed
next
  case (Suc n)
  show ?case
  proof (cases "getAncestors F (Height a) vr")
    case (Inl e)
    then show ?thesis by (subst descendsLoop.simps) simp
  next
    case (Inr F')
    have "\<forall>r. RefV r \<in> set (elems F') \<longrightarrow> r \<in> R \<and> Height r \<le> n"
    proof (intro allI impI)
      fix p' assume "RefV p' \<in> set (elems F')"
      from getAncestors_members[OF Inr this] obtain r where
        r: "RefV r \<in> set (elems F)" and p: "p' \<in> parentsOfRef vr r" by blast
      from Suc.prems r have "r \<in> R" "Height r \<le> Suc n" by auto
      with assms p show "p' \<in> R \<and> Height p' \<le> n" by (fastforce simp: descending_def)
    qed
    from Suc.IH[OF this] obtain res where "descendsLoop F' a vr = Some res" ..
    with Inr show ?thesis by (subst descendsLoop.simps) simp
  qed
qed

lemma CommitDescendsFrom_terminates:
  assumes "descending vr R"
    and "\<And>s r. Get commit ParentsField = Inr (SetV s) \<Longrightarrow> RefV r \<in> set (elems s) \<Longrightarrow> r \<in> R"
  shows "\<exists>res. CommitDescendsFrom commit a vr = Some res"
proof (cases "Get commit ParentsField")
  case (Inl e)
  then show ?thesis by (simp add: CommitDescendsFrom_def)
next
  case (Inr pv)
  show ?thesis
  proof (cases pv)
    case (SetV s)
    define n where "n = fold max (map Height (chunksSet s)) 0"
    have "\<forall>r. RefV r \<in> set (elems s) \<longrightarrow> r \<in> R \<and> Height r \<le> n"
    proof (intro allI impI conjI)
      fix r assume r: "RefV r \<in> set (elems s)"
      with assms(2) Inr SetV show "r \<in> R" by simp
      obtain st vs where s: "s = NSet st vs" by (cases s)
      from chunksList_mem[of "RefV r" vs] r s have "r \<in> set (chunksSet s)" by simp
      then show "Height r \<le> n" unfolding n_def by (simp add: fold_max_ge)
    qed
    from descendsLoop_terminates[OF assms(1) this]
    show ?thesis using Inr SetV by (simp add: CommitDescendsFrom_def asSet_def)
  qed (simp_all add: CommitDescendsFrom_def Inr asSet_def)
qed

lemma refsOf_map: "refsOf vs = Some rs \<Longrightarrow> vs = map RefV rs"
proof (induction vs arbitrary: rs)
  case Nil
  then show ?case by simp
next
  case (Cons v vs)
  from Cons.prems obtain r where v: "v = RefV r" by (cases v) simp_all
  from Cons.prems v obtain rs' where rs': "refsOf vs = Some rs'" and rs: "rs = r # rs'"
    by (cases "refsOf vs") auto
  from Cons.IH[OF rs'] v rs show ?case by simp
qed

lemma pushParents_refsOf:
  "pushParents vs q = (case refsOf vs of Some rs \<Rightarrow> Inr (q @ rs) | None \<Rightarrow> Inl TypeAssertion)"
proof (induction vs arbitrary: q)
  case Nil
  then show ?case by simp
next
  case (Cons v vs)
  show ?case
  proof (cases v)
    case (RefV r)
    then show ?thesis
      by (cases "refsOf vs") (simp_all add: Cons.IH asRef_def PushBack_def)
  qed (simp_all add: asRef_def)
qed

lemma parentsOfRef_eq:
  assumes "TargetStruct r vr = Inr c" and "Get c ParentsField = Inr (SetV s)"
  shows "parentsOfRef vr r = {p. RefV p \<in> set (elems s)}"
  using assms by (auto simp: parentsOfRef_def)

lemma parentsToQueueIter_Inr:
  "parentsToQueueIter refs q vr = Inr q' \<Longrightarrow>
     set q' = set q \<union> (\<Union>r\<in>set refs. parentsOfRef vr r)"
proof (induction refs arbitrary: q)
  case Nil
  then show ?case by simp
next
  case (Cons r refs)
  from Cons.prems obtain c where c: "TargetStruct r vr = Inr c"
    by (cases "TargetStruct r vr") simp_all
  from Cons.prems c obtain pv where g0: "Get c ParentsField = Inr pv"
    by (cases "Get c ParentsField") simp_all
  from Cons.prems c g0 obtain s where pv: "pv = SetV s"
    by (cases pv) (simp_all add: asSet_def)
  from Cons.prems c g0 pv obtain rs where rs: "refsOf (elems s) = Some rs"
    by (cases "refsOf (elems s)") (simp_all add: asSet_def pushParents_refsOf)
  from Cons.prems c g0 pv rs have rest: "parentsToQueueIter refs (q @ rs) vr = Inr q'"
    by (simp add: asSet_def pushParents_refsOf)
  have "parentsOfRef vr r = set rs"
    using parentsOfRef_eq[OF c g0[unfolded pv]] refsOf_map[OF rs] by auto
  with Cons.IH[OF rest] show ?case by auto
qed

lemma set_sortByHeight: "set (sortByHeight q) = set q"
  by (simp add: sortByHeight_def)

lemma parentsToQueue_Inr:
  assumes "parentsToQueue refs q vr = Inr q'"
  shows "set q' = set q \<union> (\<Union>r\<in>set refs. parentsOfRef vr r)"
proof -
  from assms obtain q0 where q0: "parentsToQueueIter refs q vr = Inr q0"
    and q': "q' = sortByHeight q0"
    by (cases "parentsToQueueIter refs q vr") (auto simp: parentsToQueue_def)
  from parentsToQueueIter_Inr[OF q0] q' show ?thesis by (simp add: set_sortByHeight)
qed

lemma frontierRank_less:
  assumes "q \<noteq> []" and "\<forall>r\<in>set q'. Height r < MaxHeight q"
  shows "frontierRank q' < frontierRank q"
proof (cases "q' = []")
  case True
  with assms(1) show ?thesis by (simp add: frontierRank_def)
next
  case False
  from MaxHeight_in[OF this] assms(2) have "MaxHeight q' < MaxHeight q" by auto
  with False assms(1) show ?thesis by (simp add: frontierRank_def)
qed

text \<open>Popping the highest references of a frontier and pushing their parents.\<close>

lemma expand_frontier:
  assumes d: "descending vr R" and q: "set q \<subseteq> R" "q \<noteq> []"
    and e: "parentsToQueue (fst (PopRefsOfHeight q (MaxHeight q)))
              (snd (PopRefsOfHeight q (MaxHeight q))) vr = Inr q'"
  shows "set q' \<subseteq> R" and "frontierRank q' < frontierRank q"
    and "set q' \<subseteq> set q \<union> (\<Union>r\<in>set q. parentsOfRef vr r)"
proof -
  let ?h = "MaxHeight q"
  let ?ps = "filter (\<lambda>r. Height r = ?h) q"
  let ?rest = "filter (\<lambda>r. Height r \<noteq> ?h) q"
  from parentsToQueue_Inr[OF e]
  have q': "set q' = set ?rest \<union> (\<Union>r\<in>set ?ps. parentsOfRef vr r)"
    by (simp add: PopRefsOfHeight_def)
  then show sub: "set q' \<subseteq> set q \<union> (\<Union>r\<in>set q. parentsOfRef vr r)" by auto
  show "set q' \<subseteq> R"
    using sub d q(1) by (fastforce simp: descending_def)
  have "\<forall>x\<in>set q'. Height x < ?h"
  proof
    fix x assume "x \<in> set q'"
    with q' consider "x \<in> set ?rest" | r where "r \<in> set ?ps" "x \<in> parentsOfRef vr r" by auto
    then show "Height x < ?h"
    proof cases
      case 1
      then have "x \<in> set q" "Height x \<noteq> ?h" by auto
      with MaxHeight_ge[of x q] show ?thesis by simp
    next
      case 2
      then have "r \<in> R" "Height r = ?h" using q(1) by auto
      with d 2(2) show ?thesis by (fastforce simp: descending_def)
    qed
  qed
  with q(2) show "frontierRank q' < frontierRank q" by (rule frontierRank_less)
qed

lemma FindCommonAncestorStep_Continue:
  assumes d: "descending vr R" and q: "set c1Q \<subseteq> R" "set c2Q \<subseteq> R" "c1Q \<noteq> []" "c2Q \<noteq> []"
    and s: "FindCommonAncestorStep rangeOrder vr c1Q c2Q = Inr (Continue q1 q2)"
  shows "set q1 \<subseteq> R \<and> set q2 \<subseteq> R
         \<and> frontierRank q1 + frontierRank q2 < frontierRank c1Q + frontierRank c2Q
         \<and> set q1 \<subseteq> set c1Q \<union> (\<Union>r\<in>set c1Q. parentsOfRef vr r)
         \<and> set q2 \<subseteq> set c2Q \<union> (\<Union>r\<in>set c2Q. parentsOfRef vr r)"
proof -
  let ?e1 = "parentsToQueue (fst (PopRefsOfHeight c1Q (MaxHeight c1Q)))
              (snd (PopRefsOfHeight c1Q (MaxHeight c1Q))) vr"
  let ?e2 = "parentsToQueue (fst (PopRefsOfHeight c2Q (MaxHeight c2Q)))
              (snd (PopRefsOfHeight c2Q (MaxHeight c2Q))) vr"
  consider (eq) "MaxHeight c1Q = MaxHeight c2Q"
    | (gt) "MaxHeight c1Q > MaxHeight c2Q" | (lt) "MaxHeight c1Q < MaxHeight c2Q"
    by linarith
  then show ?thesis
  proof cases
    case eq
    from s eq have e: "?e1 = Inr q1 \<and> ?e2 = Inr q2"
      by (auto simp: FindCommonAncestorStep_def Let_def case_prod_beta
          split: option.splits sum.splits)
    from expand_frontier[OF d q(1,3)] e expand_frontier[OF d q(2,4)]
    show ?thesis by (simp add: add_less_mono)
  next
    case gt
    from s gt have e: "?e1 = Inr q1 \<and> q2 = c2Q"
      by (auto simp: FindCommonAncestorStep_def Let_def case_prod_beta
          split: option.splits sum.splits)
    from expand_frontier[OF d q(1,3)] e q(2)
    show ?thesis by auto
  next
    case lt
    from s lt have e: "?e2 = Inr q2 \<and> q1 = c1Q"
      by (auto simp: FindCommonAncestorStep_def Let_def case_prod_beta
          split: option.splits sum.splits)
    from expand_frontier[OF d q(2,4)] e q(1)
    show ?thesis by auto
  qed
qed

lemma FindCommonAncestorLoop_terminates:
  assumes "descending vr R"
  shows "set c1Q \<subseteq> R \<Longrightarrow> set c2Q \<subseteq> R \<Longrightarrow>
           \<exists>res. FindCommonAncestorLoop rangeOrder vr c1Q c2Q = Some res"
proof (induction "frontierRank c1Q + frontierRank c2Q" arbitrary: c1Q c2Q rule: less_induct)
  case less
  show ?case
  proof (cases "c1Q \<noteq> [] \<and> c2Q \<noteq> []")
    case False
    then show ?thesis by (subst FindCommonAncestorLoop.simps) auto
  next
    case True
    show ?thesis
    proof (cases "FindCommonAncestorStep rangeOrder vr c1Q c2Q")
      case (Inl e)
      with True show ?thesis by (subst FindCommonAncestorLoop.simps) simp
    next
      case (Inr sr)
      show ?thesis
      proof (cases sr)
        case (Return a)
        with True Inr show ?thesis by (subst FindCommonAncestorLoop.simps) simp
      next
        case (Continue q1 q2)
        from FindCommonAncestorStep_Continue[OF assms less.prems _ _ Inr[unfolded Continue]] True
        have "set q1 \<subseteq> R" "set q2 \<subseteq> R"
          "frontierRank q1 + frontierRank q2 < frontierRank c1Q + frontierRank c2Q"
          by auto
        from less.hyps[OF this(3,1,2)] obtain res where
          "FindCommonAncestorLoop rangeOrder vr q1 q2 = Some res" ..
        with True Inr Continue show ?thesis by (subst FindCommonAncestorLoop.simps) simp
      qed
    qed
  qed
qed

text \<open>
  C9. When every reference follows the height rule (its height is one more than the
  greatest height among the references its target holds, so that a parent reference
  is lower than a reference to its child), \<open>CommitDescendsFrom\<close> and
  \<open>FindCommonAncestor\<close> both return: with a boolean or a commit, or with a panic.
\<close>

theorem searches_terminate:
  assumes "heightsByRule vr"
    and "\<forall>r\<in>set (chunks (StructV commit)). heightRule vr r"
    and "heightRule vr (NewRef hashOf (StructV c1))"
    and "heightRule vr (NewRef hashOf (StructV c2))"
  shows "(\<exists>res. CommitDescendsFrom commit ancestor vr = Some res)
       \<and> (\<exists>res. FindCommonAncestor IsSubtype hashOf rangeOrder c1 c2 vr = Some res)"
proof
  have d: "descending vr {r. heightRule vr r}"
    using assms(1) by (rule heightsByRule_descending)
  show "\<exists>res. CommitDescendsFrom commit ancestor vr = Some res"
  proof (rule CommitDescendsFrom_terminates[OF d])
    fix s r assume g: "Get commit ParentsField = Inr (SetV s)" and r: "RefV r \<in> set (elems s)"
    obtain st fs where c: "commit = Struct st fs" by (cases commit)
    obtain sst vs where s: "s = NSet sst vs" by (cases s)
    from g c have "(ParentsField, SetV s) \<in> set fs"
      by (auto simp: Get_def split: option.splits dest: map_of_SomeD)
    from chunksFields_mem[OF this] have "set (chunksList vs) \<subseteq> set (chunksFields fs)"
      by (simp add: s)
    moreover from chunksList_mem[of "RefV r" vs] r s have "r \<in> set (chunksList vs)" by simp
    ultimately have "r \<in> set (chunks (StructV commit))" by (auto simp: c)
    with assms(2) show "r \<in> {r. heightRule vr r}" by simp
  qed
  have "\<exists>res. FindCommonAncestorLoop rangeOrder vr
          [NewRef hashOf (StructV c1)] [NewRef hashOf (StructV c2)] = Some res"
    using assms(3,4) by (intro FindCommonAncestorLoop_terminates[OF d]) simp_all
  then show "\<exists>res. FindCommonAncestor IsSubtype hashOf rangeOrder c1 c2 vr = Some res"
    by (simp add: FindCommonAncestor_def)
qed

lemma exStore_heightsByRule: "heightsByRule exStore"
proof -
  have "list_all (\<lambda>(h, v). list_all (heightRule exStore) (chunks v)) exStoreEntries"
    by code_simp
  then have "\<forall>(h, v)\<in>set exStoreEntries. \<forall>r\<in>set (chunks v). heightRule exStore r"
    by (simp add: list_all_iff case_prod_beta)
  then show ?thesis
    unfolding heightsByRule_def exStore_def by (auto dest!: map_of_SomeD)
qed

theorem searches_terminate_witness:
  "(\<exists>res. CommitDescendsFrom exHead (exRef exOther) exStore = Some res)
   \<and> (\<exists>res. FindCommonAncestor IsSubtypeModel exHash id exLeft exRight exStore = Some res)"
proof (rule searches_terminate)
  show "heightsByRule exStore" by (rule exStore_heightsByRule)
  have "list_all (heightRule exStore) (chunks (StructV exHead))" by code_simp
  then show "\<forall>r\<in>set (chunks (StructV exHead)). heightRule exStore r"
    by (simp add: list_all_iff)
  show "heightRule exStore (NewRef exHash (StructV exLeft))" by code_simp
  show "heightRule exStore (NewRef exHash (StructV exRight))" by code_simp
qed

subsection \<open>Descent over a closed set of commit references\<close>

lemma parentRefs_Some:
  "parentRefs c = Some ps \<longleftrightarrow>
     (\<exists>s. Get c ParentsField = Inr (SetV s) \<and> refsOf (elems s) = Some ps)"
proof (cases "Get c ParentsField")
  case (Inl e)
  then show ?thesis by (simp add: parentRefs_def)
next
  case (Inr pv)
  then show ?thesis by (cases pv) (simp_all add: parentRefs_def)
qed

lemma parentsOfRef_parentRefs:
  assumes "TargetStruct r vr = Inr c" and "parentRefs c = Some ps"
  shows "parentsOfRef vr r = set ps"
proof -
  from assms(2) obtain s where g: "Get c ParentsField = Inr (SetV s)"
    and rs: "refsOf (elems s) = Some ps"
    by (auto simp: parentRefs_Some)
  from parentsOfRef_eq[OF assms(1) g] refsOf_map[OF rs] show ?thesis by auto
qed

lemma commitRefs_descending: "commitRefs vr R \<Longrightarrow> descending vr R"
  unfolding commitRefs_def descending_def
  by (metis parentsOfRef_parentRefs subsetD)

lemma parentsAtLeast_refsOf:
  "parentsAtLeast vs h =
     (case refsOf vs of
        Some rs \<Rightarrow> Inr (map RefV (filter (\<lambda>r. h \<le> Height r) rs))
      | None \<Rightarrow> Inl TypeAssertion)"
proof (induction vs)
  case Nil
  then show ?case by simp
next
  case (Cons v vs)
  show ?case
  proof (cases v)
    case (RefV r)
    then show ?thesis
      by (cases "refsOf vs") (simp_all add: Cons.IH asRef_def)
  qed (simp_all add: asRef_def)
qed

lemma getAncestorsIter_no_panic:
  assumes "commitRefs vr R"
  shows "set rs \<subseteq> R \<Longrightarrow> \<exists>F'. getAncestorsIter (map RefV rs) h vr acc = Inr F'"
proof (induction rs arbitrary: acc)
  case Nil
  then show ?case by simp
next
  case (Cons r rs)
  from Cons.prems assms obtain c ps where c: "TargetStruct r vr = Inr c"
    and ps: "parentRefs c = Some ps"
    unfolding commitRefs_def by (metis list.set_intros(1) subsetD)
  from ps obtain s where g: "Get c ParentsField = Inr (SetV s)"
    and rs: "refsOf (elems s) = Some ps"
    by (auto simp: parentRefs_Some)
  from Cons.prems have sub: "set rs \<subseteq> R" by simp
  show ?case
    using Cons.IH[OF sub] c g rs
    by (simp add: asRef_def asSet_def parentsAtLeast_refsOf)
qed

lemma getAncestorsIter_skip:
  "\<forall>r\<in>set rs. \<exists>c. TargetStruct r vr = Inr c \<Longrightarrow> \<forall>r\<in>set rs. Height r \<le> h \<Longrightarrow>
     getAncestorsIter (map RefV rs) h vr acc = Inr acc"
proof (induction rs)
  case Nil
  then show ?case by simp
next
  case (Cons r rs)
  from Cons.prems obtain c where c: "TargetStruct r vr = Inr c" by auto
  from Cons show ?case by (simp add: asRef_def c)
qed

lemma reaches_in_R:
  assumes "commitRefs vr R"
  shows "reaches vr q r \<Longrightarrow> q \<in> R \<Longrightarrow> r \<in> R \<and> Height r \<le> Height q"
proof (induction rule: reaches.induct)
  case (here r)
  then show ?case by simp
next
  case (parent q c ps p r)
  from assms parent.prems parent.hyps(1,2,3)
  have "p \<in> R" "Height p < Height q"
    unfolding commitRefs_def by (metis Inr_inject option.inject subsetD)+
  with parent.IH show ?case by simp
qed

lemma specNextFrontier_member:
  assumes "RefV q \<in> set vs" and "h < Height q" and "TargetStruct q vr = Inr c"
    and "Get c ParentsField = Inr (SetV s)" and "v \<in> set (elems s)"
  shows "v \<in> specNextFrontier vs h vr"
  unfolding specNextFrontier_def
  by (rule UN_I[of "RefV q"]) (use assms in simp_all)

lemma descendsLoop_reaches:
  assumes "commitRefs vr R"
  shows "reaches vr q r \<Longrightarrow> elems F = map RefV rs \<Longrightarrow> set rs \<subseteq> R \<Longrightarrow> q \<in> set rs \<Longrightarrow>
           descendsLoop F r vr = Some (Inr True)"
proof (induction arbitrary: F rs rule: reaches.induct)
  case (here r)
  then have "Has F (RefV r)" by (simp add: Has_def)
  then show ?case by (subst descendsLoop.simps) simp
next
  case (parent q c ps p r)
  show ?case
  proof (cases "Has F (RefV r)")
    case True
    then show ?thesis by (subst descendsLoop.simps) simp
  next
    case False
    from parent.prems have qR: "q \<in> R" by auto
    from assms qR parent.hyps(1,2,3) have pR: "p \<in> R" and pq: "Height p < Height q"
      unfolding commitRefs_def by (metis Inr_inject option.inject subsetD)+
    from reaches_in_R[OF assms parent.hyps(4) pR] have rp: "Height r \<le> Height p" by simp
    from parent.prems have ne: "\<not> Empty F" by (auto simp: Empty_def)
    from getAncestorsIter_no_panic[OF assms parent.prems(2), of "Height r" "NewSet []"]
    obtain F' where F': "getAncestors F (Height r) vr = Inr F'"
      by (auto simp: getAncestors_def parent.prems(1))
    have mem: "\<forall>v\<in>set (elems F'). \<exists>x\<in>R. v = RefV x"
    proof
      fix v assume "v \<in> set (elems F')"
      from getAncestors_members[OF F' this] obtain x y where
        v: "v = RefV x" and y: "RefV y \<in> set (elems F)" and x: "x \<in> parentsOfRef vr y"
        by blast
      from y parent.prems have "y \<in> R" by auto
      with commitRefs_descending[OF assms] x have "x \<in> R" by (auto simp: descending_def)
      with v show "\<exists>x\<in>R. v = RefV x" by blast
    qed
    obtain rs' where rs': "elems F' = map RefV rs'" and sub': "set rs' \<subseteq> R"
    proof -
      from mem have "\<exists>rs'. elems F' = map RefV rs' \<and> set rs' \<subseteq> R"
      proof (induction "elems F'" arbitrary: F')
        case Nil
        then show ?case by simp
      next
        case (Cons v vs)
        from Cons.prems Cons.hyps(2)[symmetric] obtain x where x: "x \<in> R" "v = RefV x"
          by auto
        from Cons.hyps(1)[of "NSet ValueType vs"] Cons.prems Cons.hyps(2)[symmetric]
        obtain rs0 where "vs = map RefV rs0" "set rs0 \<subseteq> R" by auto
        with x Cons.hyps(2)[symmetric] show ?case
          by (intro exI[of _ "x # rs0"]) simp
      qed
      with that show ?thesis by blast
    qed
    from parent.hyps(2) obtain s where g: "Get c ParentsField = Inr (SetV s)"
      and rs: "refsOf (elems s) = Some ps"
      by (auto simp: parentRefs_Some)
    from refsOf_map[OF rs] parent.hyps(3) have "RefV p \<in> set (elems s)" by simp
    moreover have "RefV q \<in> set (elems F)" "Height r < Height q"
      using parent.prems(1,3) pq rp by auto
    ultimately have "RefV p \<in> specNextFrontier (elems F) (Height r) vr"
      using parent.hyps(1) g by (intro specNextFrontier_member[of q]) simp_all
    moreover have "heightAtLeast (Height r) (RefV p)"
      using rp by (simp add: heightAtLeast_def)
    ultimately have "RefV p \<in> set (elems F')"
      using getAncestorsIter_Inr[OF F'[unfolded getAncestors_def]]
      by (simp add: set_elems_NewSet)
    with rs' have "p \<in> set rs'" by auto
    from parent.IH[OF rs' sub' this] have "descendsLoop F' r vr = Some (Inr True)" .
    with False ne F' show ?thesis by (subst descendsLoop.simps) simp
  qed
qed

lemma parentRefs_chunks:
  assumes "parentRefs c = Some ps" and "p \<in> set ps"
  shows "p \<in> set (chunks (StructV c))"
proof -
  from assms(1) obtain s where g: "Get c ParentsField = Inr (SetV s)"
    and rs: "refsOf (elems s) = Some ps"
    by (auto simp: parentRefs_Some)
  obtain st fs where c: "c = Struct st fs" by (cases c)
  obtain sst vs where s: "s = NSet sst vs" by (cases s)
  from g c have "(ParentsField, SetV s) \<in> set fs"
    by (auto simp: Get_def split: option.splits dest: map_of_SomeD)
  from chunksFields_mem[OF this] have "set (chunksList vs) \<subseteq> set (chunksFields fs)"
    by (simp add: s)
  moreover from chunksList_mem[of "RefV p" vs] refsOf_map[OF rs] assms(2) s
  have "p \<in> set (chunksList vs)" by auto
  ultimately show ?thesis by (auto simp: c)
qed

lemma reaches_descending:
  assumes "descending vr R"
  shows "reaches vr q r \<Longrightarrow> q \<in> R \<Longrightarrow> r \<in> R \<and> Height r \<le> Height q"
proof (induction rule: reaches.induct)
  case (here r)
  then show ?case by simp
next
  case (parent q c ps p r)
  from parentsOfRef_parentRefs[OF parent.hyps(1,2)] parent.hyps(3)
  have "p \<in> parentsOfRef vr q" by simp
  with assms parent.prems have "p \<in> R" "Height p < Height q"
    by (auto simp: descending_def)
  with parent.IH show ?case by simp
qed

text \<open>
  With heights going down along \<open>parents\<close> edges, the descent from a frontier that
  holds a reference from which the ancestor reference is reached returns true, unless
  it panics on the way.
\<close>

lemma descendsLoop_reaches_or_panic:
  assumes "descending vr R"
  shows "reaches vr q r \<Longrightarrow> q \<in> R \<Longrightarrow> RefV q \<in> set (elems F) \<Longrightarrow>
           descendsLoop F r vr = Some (Inr True) \<or> (\<exists>e. descendsLoop F r vr = Some (Inl e))"
proof (induction arbitrary: F rule: reaches.induct)
  case (here r)
  then have "Has F (RefV r)" by (simp add: Has_def)
  then show ?case by (subst descendsLoop.simps) simp
next
  case (parent q c ps p r)
  show ?case
  proof (cases "Has F (RefV r)")
    case True
    then show ?thesis by (subst descendsLoop.simps) simp
  next
    case False
    from parent.prems have ne: "\<not> Empty F" by (auto simp: Empty_def)
    from parentsOfRef_parentRefs[OF parent.hyps(1,2)] parent.hyps(3)
    have "p \<in> parentsOfRef vr q" by simp
    with assms parent.prems(1) have pR: "p \<in> R" and pq: "Height p < Height q"
      by (auto simp: descending_def)
    from reaches_descending[OF assms parent.hyps(4) pR] have rp: "Height r \<le> Height p" by simp
    show ?thesis
    proof (cases "getAncestors F (Height r) vr")
      case (Inl e)
      with False ne have "descendsLoop F r vr = Some (Inl e)"
        by (subst descendsLoop.simps) simp
      then show ?thesis by blast
    next
      case (Inr F')
      from parent.hyps(2) obtain s where g: "Get c ParentsField = Inr (SetV s)"
        and rs: "refsOf (elems s) = Some ps"
        by (auto simp: parentRefs_Some)
      from refsOf_map[OF rs] parent.hyps(3) have "RefV p \<in> set (elems s)" by simp
      moreover have "Height r < Height q" using pq rp by simp
      ultimately have "RefV p \<in> specNextFrontier (elems F) (Height r) vr"
        using parent.hyps(1) g parent.prems(2)
        by (intro specNextFrontier_member[of q]) simp_all
      moreover have "heightAtLeast (Height r) (RefV p)"
        using rp by (simp add: heightAtLeast_def)
      ultimately have "RefV p \<in> set (elems F')"
        using getAncestorsIter_Inr[OF Inr[unfolded getAncestors_def]]
        by (simp add: set_elems_NewSet)
      from parent.IH[OF pR this]
      have "descendsLoop F' r vr = Some (Inr True) \<or> (\<exists>e. descendsLoop F' r vr = Some (Inl e))" .
      moreover have "descendsLoop F r vr = descendsLoop F' r vr"
        using False ne Inr by (subst descendsLoop.simps) simp
      ultimately show ?thesis by simp
    qed
  qed
qed

text \<open>
  C3, as the code has it. Let the \<open>parents\<close> field of \<open>commit\<close> hold a set of references.
  With the commit's own reference, \<open>CommitDescendsFrom\<close> returns false when that
  reference is not among the parents and every parent resolves through the reader to a
  struct. With a parent of the commit it returns true, for every reader. With a
  reference reached from a parent through \<open>parents\<close> edges, and references that follow
  the height rule, it returns true unless it panics on a frontier member; it returns
  true when the parents lie in a set of references, closed under \<open>parents\<close>, of which
  each resolves to a commit with lower parents.
\<close>

theorem CommitDescendsFrom_own_parents_ancestors:
  assumes "parentRefs commit = Some ps"
  shows "((\<forall>p\<in>set ps. \<exists>c. TargetStruct p vr = Inr c) \<longrightarrow>
            NewRef hashOf (StructV commit) \<notin> set ps \<longrightarrow>
            CommitDescendsFrom commit (NewRef hashOf (StructV commit)) vr = Some (Inr False))
       \<and> (\<forall>r\<in>set ps. CommitDescendsFrom commit r vr = Some (Inr True))
       \<and> (heightsByRule vr \<longrightarrow> (\<forall>r\<in>set (chunks (StructV commit)). heightRule vr r) \<longrightarrow>
            (\<forall>r. ancestorRef vr commit r \<longrightarrow>
               CommitDescendsFrom commit r vr = Some (Inr True)
               \<or> (\<exists>e. CommitDescendsFrom commit r vr = Some (Inl e))))
       \<and> (\<forall>R. commitRefs vr R \<longrightarrow> set ps \<subseteq> R \<longrightarrow>
            (\<forall>r. ancestorRef vr commit r \<longrightarrow> CommitDescendsFrom commit r vr = Some (Inr True)))"
proof -
  from assms obtain s where g: "Get commit ParentsField = Inr (SetV s)"
    and rs: "refsOf (elems s) = Some ps"
    by (auto simp: parentRefs_Some)
  note el = refsOf_map[OF rs]
  have loop: "CommitDescendsFrom commit a vr = descendsLoop s a vr" for a
    by (simp add: CommitDescendsFrom_def g asSet_def)
  have own: "CommitDescendsFrom commit (NewRef hashOf (StructV commit)) vr = Some (Inr False)"
    if res: "\<forall>p\<in>set ps. \<exists>c. TargetStruct p vr = Inr c"
      and notin: "NewRef hashOf (StructV commit) \<notin> set ps"
  proof -
    let ?a = "NewRef hashOf (StructV commit)"
    have low: "\<forall>p\<in>set ps. Height p \<le> Height ?a"
    proof
      fix p assume "p \<in> set ps"
      from parentRefs_chunks[OF assms this]
      have "Height p \<le> maxChunkHeight (StructV commit)"
        by (simp add: maxChunkHeight_def fold_max_ge)
      then show "Height p \<le> Height ?a" by (simp add: NewRef_def)
    qed
    have nh: "\<not> Has s (RefV ?a)" using notin el by (auto simp: Has_def)
    have "getAncestors s (Height ?a) vr = Inr (NewSet [])"
      using getAncestorsIter_skip[OF res low] by (simp add: getAncestors_def el)
    moreover have "descendsLoop (NewSet []) ?a vr = Some (Inr False)"
      by (rule descendsLoop_Empty) (simp add: NewSet_def)
    ultimately have "descendsLoop s ?a vr = Some (Inr False)"
      using nh by (subst descendsLoop.simps) simp
    then show ?thesis by (simp add: loop)
  qed
  have direct: "CommitDescendsFrom commit r vr = Some (Inr True)" if "r \<in> set ps" for r
  proof -
    from that el have "Has s (RefV r)" by (simp add: Has_def)
    then have "descendsLoop s r vr = Some (Inr True)" by (subst descendsLoop.simps) simp
    then show ?thesis by (simp add: loop)
  qed
  have byRule: "CommitDescendsFrom commit r vr = Some (Inr True)
      \<or> (\<exists>e. CommitDescendsFrom commit r vr = Some (Inl e))"
    if hr: "heightsByRule vr" and ch: "\<forall>r\<in>set (chunks (StructV commit)). heightRule vr r"
      and anc: "ancestorRef vr commit r" for r
  proof -
    from anc assms obtain p where p: "p \<in> set ps" and r: "reaches vr p r"
      by (auto simp: ancestorRef_def)
    from parentRefs_chunks[OF assms p] ch have "p \<in> {r. heightRule vr r}" by simp
    moreover from p el have "RefV p \<in> set (elems s)" by simp
    ultimately show ?thesis
      using descendsLoop_reaches_or_panic[OF heightsByRule_descending[OF hr] r] by (simp add: loop)
  qed
  have closed: "CommitDescendsFrom commit r vr = Some (Inr True)"
    if cr: "commitRefs vr R" and sub: "set ps \<subseteq> R" and anc: "ancestorRef vr commit r" for R r
  proof -
    from anc assms obtain p where p: "p \<in> set ps" and r: "reaches vr p r"
      by (auto simp: ancestorRef_def)
    from descendsLoop_reaches[OF cr r el sub p] show ?thesis by (simp add: loop)
  qed
  from own direct byRule closed show ?thesis by blast
qed

lemma commitRefs_list:
  assumes "list_all (\<lambda>r. case TargetStruct r vr of
                Inr c \<Rightarrow> (case parentRefs c of
                             Some ps \<Rightarrow> list_all (\<lambda>p. p \<in> set L \<and> Height p < Height r) ps
                           | None \<Rightarrow> False)
              | Inl e \<Rightarrow> False) L"
  shows "commitRefs vr (set L)"
  unfolding commitRefs_def
proof
  fix r assume "r \<in> set L"
  with assms have *: "case TargetStruct r vr of
                Inr c \<Rightarrow> (case parentRefs c of
                             Some ps \<Rightarrow> list_all (\<lambda>p. p \<in> set L \<and> Height p < Height r) ps
                           | None \<Rightarrow> False)
              | Inl e \<Rightarrow> False"
    by (simp add: list_all_iff)
  then obtain c where c: "TargetStruct r vr = Inr c"
    by (cases "TargetStruct r vr") simp_all
  with * obtain ps where ps: "parentRefs c = Some ps"
    by (cases "parentRefs c") simp_all
  with * c have "set ps \<subseteq> set L \<and> (\<forall>p\<in>set ps. Height p < Height r)"
    by (auto simp: list_all_iff)
  with c ps show "\<exists>c ps. TargetStruct r vr = Inr c \<and> parentRefs c = Some ps
      \<and> set ps \<subseteq> set L \<and> (\<forall>p\<in>set ps. Height p < Height r)"
    by blast
qed

lemma exStore_commitRefs: "commitRefs exStore (set exRefs)"
  by (rule commitRefs_list) code_simp

theorem CommitDescendsFrom_own_parents_ancestors_witness:
  "CommitDescendsFrom exTop (NewRef exHash (StructV exTop)) exStore = Some (Inr False)
   \<and> CommitDescendsFrom exTop (exRef exMid) exStore = Some (Inr True)
   \<and> CommitDescendsFrom exTop (exRef exRootA) exStore = Some (Inr True)"
proof -
  have ps: "parentRefs exTop = Some [exRef exMid, exRef exRootB]" by code_simp
  have sub: "set [exRef exMid, exRef exRootB] \<subseteq> set exRefs" by code_simp
  have own: "NewRef exHash (StructV exTop) \<notin> set [exRef exMid, exRef exRootB]" by code_simp
  have "TargetStruct (exRef exMid) exStore = Inr exMid"
    "TargetStruct (exRef exRootB) exStore = Inr exRootB"
    by code_simp+
  then have res: "\<forall>p\<in>set [exRef exMid, exRef exRootB]. \<exists>c. TargetStruct p exStore = Inr c"
    by simp
  have "reaches exStore (exRef exMid) (exRef exRootA)"
  proof (rule reaches.parent)
    show "TargetStruct (exRef exMid) exStore = Inr exMid" by code_simp
    show "parentRefs exMid = Some [exRef exRootA]" by code_simp
    show "exRef exRootA \<in> set [exRef exRootA]" by simp
    show "reaches exStore (exRef exRootA) (exRef exRootA)" by (rule reaches.here)
  qed
  with ps have anc: "ancestorRef exStore exTop (exRef exRootA)"
    unfolding ancestorRef_def
    by (intro exI[of _ "[exRef exMid, exRef exRootB]"] exI[of _ "exRef exMid"]) simp
  have "list_all (heightRule exStore) (chunks (StructV exTop))" by code_simp
  then have ch: "\<forall>r\<in>set (chunks (StructV exTop)). heightRule exStore r"
    by (simp add: list_all_iff)
  note t = CommitDescendsFrom_own_parents_ancestors[OF ps, of exStore exHash]
  from t res own
  have a: "CommitDescendsFrom exTop (NewRef exHash (StructV exTop)) exStore = Some (Inr False)"
    by blast
  from t have b: "CommitDescendsFrom exTop (exRef exMid) exStore = Some (Inr True)"
    by simp
  from t exStore_heightsByRule ch anc
  have "CommitDescendsFrom exTop (exRef exRootA) exStore = Some (Inr True)
      \<or> (\<exists>e. CommitDescendsFrom exTop (exRef exRootA) exStore = Some (Inl e))"
    by blast
  moreover from t exStore_commitRefs sub anc
  have c: "CommitDescendsFrom exTop (exRef exRootA) exStore = Some (Inr True)"
    by blast
  ultimately show ?thesis using a b by simp
qed

text \<open>
  The claim as stated fails: with a reader that does not hold the commit \<open>exRootB\<close>, a
  parent of \<open>exTop\<close>, the descent dereferences that parent and panics, for the own
  reference of \<open>exTop\<close> (which is not among its parents) and for the reference to
  \<open>exRootA\<close>, which is reached through the other parent \<open>exMid\<close>.
\<close>

theorem CommitDescendsFrom_missing_parent_counterexample:
  "parentRefs exTop = Some [exRef exMid, exRef exRootB]
   \<and> NewRef exHash (StructV exTop) \<notin> set [exRef exMid, exRef exRootB]
   \<and> CommitDescendsFrom exTop (NewRef exHash (StructV exTop)) (exStore(12 := None))
       = Some (Inl TypeAssertion)
   \<and> ancestorRef (exStore(12 := None)) exTop (exRef exRootA)
   \<and> CommitDescendsFrom exTop (exRef exRootA) (exStore(12 := None)) = Some (Inl TypeAssertion)"
proof -
  have ps: "parentRefs exTop = Some [exRef exMid, exRef exRootB]" by code_simp
  have own: "NewRef exHash (StructV exTop) \<notin> set [exRef exMid, exRef exRootB]" by code_simp
  have p1: "CommitDescendsFrom exTop (NewRef exHash (StructV exTop)) (exStore(12 := None))
       = Some (Inl TypeAssertion)" by code_simp
  have p2: "CommitDescendsFrom exTop (exRef exRootA) (exStore(12 := None))
       = Some (Inl TypeAssertion)" by code_simp
  have "reaches (exStore(12 := None)) (exRef exMid) (exRef exRootA)"
  proof (rule reaches.parent)
    show "TargetStruct (exRef exMid) (exStore(12 := None)) = Inr exMid" by code_simp
    show "parentRefs exMid = Some [exRef exRootA]" by code_simp
    show "exRef exRootA \<in> set [exRef exRootA]" by simp
    show "reaches (exStore(12 := None)) (exRef exRootA) (exRef exRootA)" by (rule reaches.here)
  qed
  with ps have "ancestorRef (exStore(12 := None)) exTop (exRef exRootA)"
    unfolding ancestorRef_def
    by (intro exI[of _ "[exRef exMid, exRef exRootB]"] exI[of _ "exRef exMid"]) simp
  with ps own p1 p2 show ?thesis by simp
qed

subsection \<open>The search for a common ancestor\<close>

lemma set_AList_update: "set (AList.update k v al) \<subseteq> insert (k, v) (set al)"
  by (induction al) auto

lemma toRefSet_entries_fold:
  "(k, r) \<in> set (fold (\<lambda>r out. AList.update (TargetHash r) r out) xs m) \<Longrightarrow>
     (k, r) \<in> set m \<or> (r \<in> set xs \<and> k = TargetHash r)"
proof (induction xs arbitrary: m)
  case Nil
  then show ?case by simp
next
  case (Cons x xs)
  from Cons.IH[OF Cons.prems[simplified]]
  have "(k, r) \<in> set (AList.update (TargetHash x) x m) \<or> r \<in> set xs \<and> k = TargetHash r" .
  moreover have "(k, r) \<in> set (AList.update (TargetHash x) x m) \<Longrightarrow>
      (k, r) \<in> set m \<or> (r = x \<and> k = TargetHash x)"
    using set_AList_update[of "TargetHash x" x m] by auto
  ultimately show ?case by auto
qed

lemma toRefSet_entries: "(k, r) \<in> set (toRefSet xs) \<Longrightarrow> r \<in> set xs \<and> k = TargetHash r"
  using toRefSet_entries_fold[of k r xs "[]"] by (simp add: toRefSet_def)

lemma toRefSet_keys_fold:
  "fst ` set (fold (\<lambda>r out. AList.update (TargetHash r) r out) xs m) = fst ` set m \<union> TargetHash ` set xs"
proof (induction xs arbitrary: m)
  case Nil
  then show ?case by simp
next
  case (Cons x xs)
  show ?case by (auto simp: Cons.IH dom_update)
qed

lemma toRefSet_keys: "fst ` set (toRefSet xs) = TargetHash ` set xs"
  using toRefSet_keys_fold[of xs "[]"] by (simp add: toRefSet_def)

lemma map_of_toRefSet: "map_of (toRefSet xs) k = None \<longleftrightarrow> k \<notin> TargetHash ` set xs"
  by (simp add: map_of_eq_None_iff toRefSet_keys)

lemma findCommonRef_Some:
  assumes "isRangeOrder rangeOrder" and "findCommonRef rangeOrder a b = Some r"
  shows "r \<in> set a \<and> TargetHash r \<in> TargetHash ` set b"
proof -
  from assms(2) obtain s where
    f: "find (\<lambda>(s, r). map_of (toRefSet b) s \<noteq> None) (rangeOrder (toRefSet a)) = Some (s, r)"
    by (auto simp: findCommonRef_def Let_def split: option.splits)
  then have "(s, r) \<in> set (rangeOrder (toRefSet a))" and "map_of (toRefSet b) s \<noteq> None"
    by (auto simp: find_Some_iff in_set_conv_nth)
  with assms(1) toRefSet_entries[of s r a] map_of_toRefSet[of b s] show ?thesis
    by (auto simp: isRangeOrder_def)
qed

lemma findCommonRef_None:
  assumes "isRangeOrder rangeOrder"
  shows "findCommonRef rangeOrder a b = None \<longleftrightarrow> TargetHash ` set a \<inter> TargetHash ` set b = {}"
proof -
  have "findCommonRef rangeOrder a b = None \<longleftrightarrow>
      find (\<lambda>(s, r). map_of (toRefSet b) s \<noteq> None) (rangeOrder (toRefSet a)) = None"
    by (auto simp: findCommonRef_def Let_def split: option.splits)
  also have "\<dots> \<longleftrightarrow>
      \<not> (\<exists>e \<in> set (rangeOrder (toRefSet a)). map_of (toRefSet b) (fst e) \<noteq> None)"
    unfolding find_None_iff by (auto simp: case_prod_beta)
  also have "\<dots> \<longleftrightarrow> \<not> (\<exists>k \<in> fst ` set (toRefSet a). k \<in> TargetHash ` set b)"
    using assms map_of_toRefSet[of b] by (auto simp: isRangeOrder_def)
  also have "\<dots> \<longleftrightarrow> TargetHash ` set a \<inter> TargetHash ` set b = {}"
    by (auto simp: toRefSet_keys)
  finally show ?thesis .
qed

lemma parentsToQueueIter_no_panic:
  assumes "commitRefs vr R"
  shows "set refs \<subseteq> R \<Longrightarrow> \<exists>q'. parentsToQueueIter refs q vr = Inr q'"
proof (induction refs arbitrary: q)
  case Nil
  then show ?case by simp
next
  case (Cons r refs)
  from Cons.prems assms obtain c ps where c: "TargetStruct r vr = Inr c"
    and ps: "parentRefs c = Some ps"
    unfolding commitRefs_def by (metis list.set_intros(1) subsetD)
  from ps obtain s where g: "Get c ParentsField = Inr (SetV s)"
    and rs: "refsOf (elems s) = Some ps"
    by (auto simp: parentRefs_Some)
  from Cons.prems have sub: "set refs \<subseteq> R" by simp
  show ?case
    using Cons.IH[OF sub] c g rs
    by (simp add: asSet_def pushParents_refsOf)
qed

lemma parentsToQueue_no_panic:
  assumes "commitRefs vr R" and "set refs \<subseteq> R"
  shows "\<exists>q'. parentsToQueue refs q vr = Inr q'"
  using parentsToQueueIter_no_panic[OF assms, of q] by (auto simp: parentsToQueue_def)

lemma reaches_parent_end:
  assumes "commitRefs vr R"
  shows "reaches vr a x \<Longrightarrow> a \<in> R \<Longrightarrow> p \<in> parentsOfRef vr x \<Longrightarrow> reaches vr a p"
proof (induction rule: reaches.induct)
  case (here r)
  from assms here(1) obtain c ps where c: "TargetStruct r vr = Inr c"
    and ps: "parentRefs c = Some ps"
    unfolding commitRefs_def by blast
  from parentsOfRef_parentRefs[OF c ps] here(2) have "p \<in> set ps" by simp
  from reaches.parent[OF c ps this reaches.here] show ?case .
next
  case (parent q c ps p' r)
  from assms parent.prems(1) parent.hyps(1,2,3) have "p' \<in> R"
    unfolding commitRefs_def by (metis Inr_inject option.inject subsetD)
  from parent.IH[OF this parent.prems(2)] have "reaches vr p' p" .
  from reaches.parent[OF parent.hyps(1,2,3) this] show ?case .
qed

lemma FindCommonAncestorStep_equal:
  assumes "MaxHeight c1Q = MaxHeight c2Q"
  shows "FindCommonAncestorStep rangeOrder vr c1Q c2Q =
     (case findCommonRef rangeOrder (fst (PopRefsOfHeight c1Q (MaxHeight c1Q)))
             (fst (PopRefsOfHeight c2Q (MaxHeight c2Q))) of
        Some common \<Rightarrow>
          (case TargetStruct common vr of Inl e \<Rightarrow> Inl e | Inr a \<Rightarrow> Inr (Return a))
      | None \<Rightarrow>
          (case parentsToQueue (fst (PopRefsOfHeight c1Q (MaxHeight c1Q)))
                  (snd (PopRefsOfHeight c1Q (MaxHeight c1Q))) vr of
             Inl e \<Rightarrow> Inl e
           | Inr q1 \<Rightarrow>
               (case parentsToQueue (fst (PopRefsOfHeight c2Q (MaxHeight c2Q)))
                       (snd (PopRefsOfHeight c2Q (MaxHeight c2Q))) vr of
                  Inl e \<Rightarrow> Inl e
                | Inr q2 \<Rightarrow> Inr (Continue q1 q2))))"
  unfolding FindCommonAncestorStep_def Let_def case_prod_beta
  by (subst if_P[OF assms]) (rule refl)

lemma FindCommonAncestorStep_greater:
  assumes "MaxHeight c1Q > MaxHeight c2Q"
  shows "FindCommonAncestorStep rangeOrder vr c1Q c2Q =
     (case parentsToQueue (fst (PopRefsOfHeight c1Q (MaxHeight c1Q)))
             (snd (PopRefsOfHeight c1Q (MaxHeight c1Q))) vr of
        Inl e \<Rightarrow> Inl e
      | Inr q1 \<Rightarrow> Inr (Continue q1 c2Q))"
  using assms by (simp add: FindCommonAncestorStep_def Let_def case_prod_beta)

lemma FindCommonAncestorStep_less:
  assumes "MaxHeight c1Q < MaxHeight c2Q"
  shows "FindCommonAncestorStep rangeOrder vr c1Q c2Q =
     (case parentsToQueue (fst (PopRefsOfHeight c2Q (MaxHeight c2Q)))
             (snd (PopRefsOfHeight c2Q (MaxHeight c2Q))) vr of
        Inl e \<Rightarrow> Inl e
      | Inr q2 \<Rightarrow> Inr (Continue c1Q q2))"
  using assms by (simp add: FindCommonAncestorStep_def Let_def case_prod_beta)

lemma FindCommonAncestorStep_Return:
  assumes "FindCommonAncestorStep rangeOrder vr c1Q c2Q = Inr (Return x)"
  shows "MaxHeight c1Q = MaxHeight c2Q
       \<and> (\<exists>common. findCommonRef rangeOrder (fst (PopRefsOfHeight c1Q (MaxHeight c1Q)))
                       (fst (PopRefsOfHeight c2Q (MaxHeight c2Q))) = Some common
                   \<and> TargetStruct common vr = Inr x)"
proof -
  consider (eq) "MaxHeight c1Q = MaxHeight c2Q"
    | (gt) "MaxHeight c1Q > MaxHeight c2Q" | (lt) "MaxHeight c1Q < MaxHeight c2Q"
    by linarith
  then show ?thesis
  proof cases
    case eq
    with assms show ?thesis
      unfolding FindCommonAncestorStep_equal[OF eq]
      by (auto split: option.splits sum.splits)
  next
    case gt
    with assms show ?thesis
      unfolding FindCommonAncestorStep_greater[OF gt] by (auto split: sum.splits)
  next
    case lt
    with assms show ?thesis
      unfolding FindCommonAncestorStep_less[OF lt] by (auto split: sum.splits)
  qed
qed

lemma FindCommonAncestorLoop_Continue:
  assumes "c1Q \<noteq> []" and "c2Q \<noteq> []"
    and "FindCommonAncestorStep rangeOrder vr c1Q c2Q = Inr (Continue q1 q2)"
  shows "FindCommonAncestorLoop rangeOrder vr c1Q c2Q = FindCommonAncestorLoop rangeOrder vr q1 q2"
  using assms by (subst FindCommonAncestorLoop.simps) simp

lemma FindCommonAncestorLoop_Return:
  assumes "c1Q \<noteq> []" and "c2Q \<noteq> []"
    and "FindCommonAncestorStep rangeOrder vr c1Q c2Q = Inr (Return x)"
  shows "FindCommonAncestorLoop rangeOrder vr c1Q c2Q = Some (Inr (Some x))"
  using assms by (subst FindCommonAncestorLoop.simps) simp

text \<open>
  With frontiers of references reached from two starting references that share no
  target hash, an iteration of the loop finds nothing and does not panic.
\<close>

lemma FindCommonAncestorStep_disjoint:
  assumes ro: "isRangeOrder rangeOrder" and cr: "commitRefs vr R"
    and q: "set c1Q \<subseteq> R" "set c2Q \<subseteq> R"
    and dis: "TargetHash ` set c1Q \<inter> TargetHash ` set c2Q = {}"
  shows "\<exists>q1 q2. FindCommonAncestorStep rangeOrder vr c1Q c2Q = Inr (Continue q1 q2)"
proof -
  let ?p1 = "fst (PopRefsOfHeight c1Q (MaxHeight c1Q))"
  let ?r1 = "snd (PopRefsOfHeight c1Q (MaxHeight c1Q))"
  let ?p2 = "fst (PopRefsOfHeight c2Q (MaxHeight c2Q))"
  let ?r2 = "snd (PopRefsOfHeight c2Q (MaxHeight c2Q))"
  have sub: "set ?p1 \<subseteq> set c1Q" "set ?p2 \<subseteq> set c2Q"
    by (auto simp: PopRefsOfHeight_def)
  with q have "set ?p1 \<subseteq> R" "set ?p2 \<subseteq> R" by auto
  from parentsToQueue_no_panic[OF cr this(1), of ?r1] parentsToQueue_no_panic[OF cr this(2), of ?r2]
  obtain q1 q2 where e: "parentsToQueue ?p1 ?r1 vr = Inr q1" "parentsToQueue ?p2 ?r2 vr = Inr q2"
    by blast
  from sub dis have "TargetHash ` set ?p1 \<inter> TargetHash ` set ?p2 = {}" by blast
  then have none: "findCommonRef rangeOrder ?p1 ?p2 = None"
    by (simp add: findCommonRef_None[OF ro])
  consider (eq) "MaxHeight c1Q = MaxHeight c2Q"
    | (gt) "MaxHeight c1Q > MaxHeight c2Q" | (lt) "MaxHeight c1Q < MaxHeight c2Q"
    by linarith
  then show ?thesis
  proof cases
    case eq
    show ?thesis unfolding FindCommonAncestorStep_equal[OF eq] using e none by simp
  next
    case gt
    show ?thesis unfolding FindCommonAncestorStep_greater[OF gt] using e by simp
  next
    case lt
    show ?thesis unfolding FindCommonAncestorStep_less[OF lt] using e by simp
  qed
qed

lemma FindCommonAncestorLoop_disjoint:
  assumes ro: "isRangeOrder rangeOrder" and cr: "commitRefs vr R"
    and r: "r1 \<in> R" "r2 \<in> R"
    and dis: "\<forall>a b. reaches vr r1 a \<and> reaches vr r2 b \<longrightarrow> TargetHash a \<noteq> TargetHash b"
  shows "set c1Q \<subseteq> R \<Longrightarrow> set c2Q \<subseteq> R \<Longrightarrow>
         \<forall>a\<in>set c1Q. reaches vr r1 a \<Longrightarrow> \<forall>b\<in>set c2Q. reaches vr r2 b \<Longrightarrow>
         FindCommonAncestorLoop rangeOrder vr c1Q c2Q = Some (Inr None)"
proof (induction "frontierRank c1Q + frontierRank c2Q" arbitrary: c1Q c2Q rule: less_induct)
  case less
  show ?case
  proof (cases "c1Q \<noteq> [] \<and> c2Q \<noteq> []")
    case False
    then show ?thesis by (subst FindCommonAncestorLoop.simps) auto
  next
    case True
    from less.prems(3,4) dis have "TargetHash ` set c1Q \<inter> TargetHash ` set c2Q = {}"
      by fastforce
    from FindCommonAncestorStep_disjoint[OF ro cr less.prems(1,2) this]
    obtain q1 q2 where s: "FindCommonAncestorStep rangeOrder vr c1Q c2Q = Inr (Continue q1 q2)"
      by blast
    from FindCommonAncestorStep_Continue[OF commitRefs_descending[OF cr] less.prems(1,2) _ _ s] True
    have st: "set q1 \<subseteq> R" "set q2 \<subseteq> R"
      "frontierRank q1 + frontierRank q2 < frontierRank c1Q + frontierRank c2Q"
      "set q1 \<subseteq> set c1Q \<union> (\<Union>r\<in>set c1Q. parentsOfRef vr r)"
      "set q2 \<subseteq> set c2Q \<union> (\<Union>r\<in>set c2Q. parentsOfRef vr r)"
      by auto
    have "\<forall>a\<in>set q1. reaches vr r1 a"
      using st(4) less.prems(3) reaches_parent_end[OF cr _ r(1)] by blast
    moreover have "\<forall>b\<in>set q2. reaches vr r2 b"
      using st(5) less.prems(4) reaches_parent_end[OF cr _ r(2)] by blast
    ultimately have "FindCommonAncestorLoop rangeOrder vr q1 q2 = Some (Inr None)"
      using less.hyps[OF st(3,1,2)] by blast
    with True s show ?thesis by (subst FindCommonAncestorLoop.simps) simp
  qed
qed

lemma frontiersAfter_None:
  assumes "frontiersAfter rangeOrder vr c1Q c2Q q1' q2'" and "q1' = [] \<or> q2' = []"
  shows "FindCommonAncestorLoop rangeOrder vr c1Q c2Q = Some (Inr None)"
  using assms
proof (induction rule: frontiersAfter.induct)
  case (start c1Q c2Q)
  then show ?case by (subst FindCommonAncestorLoop.simps) auto
next
  case (iteration c1Q c2Q q1 q2 q1' q2')
  then show ?case by (subst FindCommonAncestorLoop.simps) simp
qed

lemma None_frontiersAfter:
  assumes "FindCommonAncestorLoop rangeOrder vr c1Q c2Q = Some res"
  shows "res = Inr None \<longrightarrow>
     (\<exists>q1' q2'. frontiersAfter rangeOrder vr c1Q c2Q q1' q2' \<and> (q1' = [] \<or> q2' = []))"
proof (rule FindCommonAncestorLoop.raw_induct[where P = "\<lambda>rangeOrder vr c1Q c2Q res.
    res = Inr None \<longrightarrow>
     (\<exists>q1' q2'. frontiersAfter rangeOrder vr c1Q c2Q q1' q2' \<and> (q1' = [] \<or> q2' = []))",
    OF _ assms], goal_cases)
  case (1 loop rangeOrder vr c1Q c2Q res)
  show ?case
  proof (cases "c1Q \<noteq> [] \<and> c2Q \<noteq> []")
    case False
    then have "frontiersAfter rangeOrder vr c1Q c2Q c1Q c2Q \<and> (c1Q = [] \<or> c2Q = [])"
      by (auto intro: frontiersAfter.start)
    then show ?thesis by blast
  next
    case True
    show ?thesis
    proof (cases "FindCommonAncestorStep rangeOrder vr c1Q c2Q")
      case (Inl e)
      with 1(2) True show ?thesis by auto
    next
      case (Inr sr)
      show ?thesis
      proof (cases sr)
        case (Return a)
        with 1(2) True Inr show ?thesis by auto
      next
        case (Continue q1 q2)
        with 1(2) True Inr have l: "loop rangeOrder vr q1 q2 = Some res" by simp
        from 1(1)[OF l] True Inr Continue show ?thesis
          by (auto intro: frontiersAfter.iteration)
      qed
    qed
  qed
qed

lemma FindCommonAncestorStep_no_panic:
  assumes ro: "isRangeOrder rangeOrder" and cr: "commitRefs vr R"
    and q: "set c1Q \<subseteq> R" "set c2Q \<subseteq> R"
  shows "\<exists>sr. FindCommonAncestorStep rangeOrder vr c1Q c2Q = Inr sr"
proof -
  let ?p1 = "fst (PopRefsOfHeight c1Q (MaxHeight c1Q))"
  let ?r1 = "snd (PopRefsOfHeight c1Q (MaxHeight c1Q))"
  let ?p2 = "fst (PopRefsOfHeight c2Q (MaxHeight c2Q))"
  let ?r2 = "snd (PopRefsOfHeight c2Q (MaxHeight c2Q))"
  have sub: "set ?p1 \<subseteq> R" "set ?p2 \<subseteq> R"
    using q by (auto simp: PopRefsOfHeight_def)
  from parentsToQueue_no_panic[OF cr sub(1), of ?r1] parentsToQueue_no_panic[OF cr sub(2), of ?r2]
  obtain q1 q2 where e: "parentsToQueue ?p1 ?r1 vr = Inr q1" "parentsToQueue ?p2 ?r2 vr = Inr q2"
    by blast
  consider (eq) "MaxHeight c1Q = MaxHeight c2Q"
    | (gt) "MaxHeight c1Q > MaxHeight c2Q" | (lt) "MaxHeight c1Q < MaxHeight c2Q"
    by linarith
  then show ?thesis
  proof cases
    case eq
    show ?thesis
    proof (cases "findCommonRef rangeOrder ?p1 ?p2")
      case None
      show ?thesis unfolding FindCommonAncestorStep_equal[OF eq] using e None by simp
    next
      case (Some common)
      from findCommonRef_Some[OF ro Some] sub(1) have "common \<in> R" by auto
      with cr obtain c where "TargetStruct common vr = Inr c"
        unfolding commitRefs_def by blast
      then show ?thesis unfolding FindCommonAncestorStep_equal[OF eq] using Some by simp
    qed
  next
    case gt
    show ?thesis unfolding FindCommonAncestorStep_greater[OF gt] using e by simp
  next
    case lt
    show ?thesis unfolding FindCommonAncestorStep_less[OF lt] using e by simp
  qed
qed

lemma reaches_strict:
  assumes "commitRefs vr R"
  shows "reaches vr q r \<Longrightarrow> q \<in> R \<Longrightarrow> r = q \<or> Height r < Height q"
proof (induction rule: reaches.induct)
  case (here r)
  then show ?case by simp
next
  case (parent q c ps p r)
  from assms parent.prems parent.hyps(1,2,3)
  have "p \<in> R" "Height p < Height q"
    unfolding commitRefs_def by (metis Inr_inject option.inject subsetD)+
  with reaches_in_R[OF assms parent.hyps(4)] show ?case by simp
qed

lemma reaches_via_parent:
  assumes "reaches vr x a" and "a \<noteq> x"
  shows "\<exists>p\<in>parentsOfRef vr x. reaches vr p a"
  using assms
proof (cases rule: reaches.cases)
  case here
  with assms(2) show ?thesis by simp
next
  case (parent c ps p)
  from parentsOfRef_parentRefs[OF parent(1,2)] parent(3,4) show ?thesis by auto
qed

text \<open>
  A reference reached from a frontier stays reached from the frontier after the highest
  references were popped and their parents pushed, unless it is one of the popped.
\<close>

lemma live_after_expand:
  assumes e: "parentsToQueue (fst (PopRefsOfHeight q (MaxHeight q)))
              (snd (PopRefsOfHeight q (MaxHeight q))) vr = Inr q'"
    and x: "x \<in> set q" and r: "reaches vr x a"
  shows "(\<exists>y\<in>set q'. reaches vr y a) \<or> (a = x \<and> Height a = MaxHeight q)"
proof -
  let ?h = "MaxHeight q"
  from parentsToQueue_Inr[OF e]
  have q': "set q' = set (filter (\<lambda>r. Height r \<noteq> ?h) q)
      \<union> (\<Union>r\<in>set (filter (\<lambda>r. Height r = ?h) q). parentsOfRef vr r)"
    by (simp add: PopRefsOfHeight_def)
  show ?thesis
  proof (cases "Height x = ?h")
    case False
    with x q' have "x \<in> set q'" by simp
    with r show ?thesis by blast
  next
    case True
    show ?thesis
    proof (cases "a = x")
      case True
      with \<open>Height x = ?h\<close> show ?thesis by simp
    next
      case False
      from reaches_via_parent[OF r False] obtain p where
        p: "p \<in> parentsOfRef vr x" "reaches vr p a" by blast
      from p(1) x True q' have "p \<in> set q'" by auto
      with p(2) show ?thesis by blast
    qed
  qed
qed

lemma popped_is_top:
  assumes cr: "commitRefs vr R" and q: "set q \<subseteq> R"
    and y: "y \<in> set q" and r: "reaches vr y b" and h: "MaxHeight q \<le> Height b"
  shows "b = y \<and> Height b = MaxHeight q"
proof -
  from y q have "y \<in> R" by auto
  from reaches_strict[OF cr r this] MaxHeight_ge[OF y] h show ?thesis by auto
qed

lemma shared_stays_live:
  assumes ro: "isRangeOrder rangeOrder" and cr: "commitRefs vr R" and sh: "sameHashSameHeight R"
    and q: "set c1Q \<subseteq> R" "set c2Q \<subseteq> R"
    and s: "FindCommonAncestorStep rangeOrder vr c1Q c2Q = Inr (Continue q1 q2)"
    and x: "x \<in> set c1Q" "reaches vr x a" and y: "y \<in> set c2Q" "reaches vr y b"
    and ab: "TargetHash a = TargetHash b"
  shows "(\<exists>x'\<in>set q1. reaches vr x' a) \<and> (\<exists>y'\<in>set q2. reaches vr y' b)"
proof -
  let ?p1 = "fst (PopRefsOfHeight c1Q (MaxHeight c1Q))"
  let ?p2 = "fst (PopRefsOfHeight c2Q (MaxHeight c2Q))"
  let ?e1 = "parentsToQueue ?p1 (snd (PopRefsOfHeight c1Q (MaxHeight c1Q))) vr"
  let ?e2 = "parentsToQueue ?p2 (snd (PopRefsOfHeight c2Q (MaxHeight c2Q))) vr"
  from x q have xR: "x \<in> R" by auto
  from y q have yR: "y \<in> R" by auto
  from reaches_in_R[OF cr x(2) xR] have aR: "a \<in> R" and ax: "Height a \<le> Height x" by simp_all
  from reaches_in_R[OF cr y(2) yR] have bR: "b \<in> R" and b_y: "Height b \<le> Height y" by simp_all
  from sh aR bR ab have hab: "Height a = Height b"
    unfolding sameHashSameHeight_def by blast
  have a1: "Height a \<le> MaxHeight c1Q" using ax MaxHeight_ge[OF x(1)] by simp
  have b2: "Height b \<le> MaxHeight c2Q" using b_y MaxHeight_ge[OF y(1)] by simp
  consider (eq) "MaxHeight c1Q = MaxHeight c2Q"
    | (gt) "MaxHeight c1Q > MaxHeight c2Q" | (lt) "MaxHeight c1Q < MaxHeight c2Q"
    by linarith
  then show ?thesis
  proof cases
    case eq
    from s have none: "findCommonRef rangeOrder ?p1 ?p2 = None"
      unfolding FindCommonAncestorStep_equal[OF eq]
      by (cases "findCommonRef rangeOrder ?p1 ?p2") (auto split: sum.splits)
    with s have e: "?e1 = Inr q1" "?e2 = Inr q2"
      unfolding FindCommonAncestorStep_equal[OF eq]
      by (auto split: sum.splits)
    from none have dis: "TargetHash ` set ?p1 \<inter> TargetHash ` set ?p2 = {}"
      by (simp add: findCommonRef_None[OF ro])
    have both: False if "a = x" "Height a = MaxHeight c1Q"
    proof -
      from that hab eq have "MaxHeight c2Q \<le> Height b" by simp
      from popped_is_top[OF cr q(2) y this] have "b = y" "Height b = MaxHeight c2Q" by auto
      with y(1) have "b \<in> set ?p2" by (simp add: PopRefsOfHeight_def)
      then have "TargetHash a \<in> TargetHash ` set ?p2" unfolding ab by (rule imageI)
      moreover from that x(1) have "a \<in> set ?p1" by (simp add: PopRefsOfHeight_def)
      then have "TargetHash a \<in> TargetHash ` set ?p1" by (rule imageI)
      ultimately show False using dis by (simp add: disjoint_iff)
    qed
    have both': False if "b = y" "Height b = MaxHeight c2Q"
    proof -
      from that hab eq have "MaxHeight c1Q \<le> Height a" by simp
      from popped_is_top[OF cr q(1) x this] have "a = x" "Height a = MaxHeight c1Q" by auto
      then show False by (rule both)
    qed
    from live_after_expand[OF e(1) x] both have "\<exists>x'\<in>set q1. reaches vr x' a" by metis
    moreover from live_after_expand[OF e(2) y] both' have "\<exists>y'\<in>set q2. reaches vr y' b"
      by metis
    ultimately show ?thesis by simp
  next
    case gt
    from s have e: "?e1 = Inr q1" "q2 = c2Q"
      unfolding FindCommonAncestorStep_greater[OF gt] by (auto split: sum.splits)
    have "\<not> (a = x \<and> Height a = MaxHeight c1Q)" using hab b2 gt by simp
    with live_after_expand[OF e(1) x] have "\<exists>x'\<in>set q1. reaches vr x' a" by metis
    moreover from e(2) y have "\<exists>y'\<in>set q2. reaches vr y' b" by metis
    ultimately show ?thesis by simp
  next
    case lt
    from s have e: "?e2 = Inr q2" "q1 = c1Q"
      unfolding FindCommonAncestorStep_less[OF lt] by (auto split: sum.splits)
    have "\<not> (b = y \<and> Height b = MaxHeight c2Q)" using hab a1 lt by simp
    with live_after_expand[OF e(1) y] have "\<exists>y'\<in>set q2. reaches vr y' b" by metis
    moreover from e(2) x have "\<exists>x'\<in>set q1. reaches vr x' a" by metis
    ultimately show ?thesis by simp
  qed
qed

text \<open>
  With references of one target hash reached from both frontiers, the loop returns a
  commit.
\<close>

lemma FindCommonAncestorLoop_shared:
  assumes ro: "isRangeOrder rangeOrder" and cr: "commitRefs vr R" and sh: "sameHashSameHeight R"
  shows "set c1Q \<subseteq> R \<Longrightarrow> set c2Q \<subseteq> R \<Longrightarrow>
         x \<in> set c1Q \<Longrightarrow> reaches vr x a \<Longrightarrow> y \<in> set c2Q \<Longrightarrow> reaches vr y b \<Longrightarrow>
         TargetHash a = TargetHash b \<Longrightarrow>
         \<exists>c. FindCommonAncestorLoop rangeOrder vr c1Q c2Q = Some (Inr (Some c))"
proof (induction "frontierRank c1Q + frontierRank c2Q" arbitrary: c1Q c2Q x y rule: less_induct)
  case less
  from less.prems(3,5) have ne: "c1Q \<noteq> []" "c2Q \<noteq> []" by auto
  from FindCommonAncestorStep_no_panic[OF ro cr less.prems(1,2)]
  obtain sr where sr: "FindCommonAncestorStep rangeOrder vr c1Q c2Q = Inr sr" by blast
  show ?case
  proof (cases sr)
    case (Return c)
    from FindCommonAncestorLoop_Return[OF ne sr[unfolded Return]] show ?thesis by blast
  next
    case (Continue q1 q2)
    note st = sr[unfolded Continue]
    from FindCommonAncestorStep_Continue[OF commitRefs_descending[OF cr] less.prems(1,2) ne st]
    have sub: "set q1 \<subseteq> R" "set q2 \<subseteq> R"
      and rk: "frontierRank q1 + frontierRank q2 < frontierRank c1Q + frontierRank c2Q"
      by auto
    from shared_stays_live[OF ro cr sh less.prems(1,2) st less.prems(3,4,5,6,7)]
    obtain x' y' where "x' \<in> set q1" "reaches vr x' a" "y' \<in> set q2" "reaches vr y' b"
      by blast
    from less.hyps[OF rk sub this less.prems(7)]
    show ?thesis using FindCommonAncestorLoop_Continue[OF ne st] by simp
  qed
qed

lemma parentsToQueueIter_parentRefs:
  "parentsToQueueIter refs q vr = Inr q' \<Longrightarrow>
     \<forall>r\<in>set refs. \<exists>c ps. TargetStruct r vr = Inr c \<and> parentRefs c = Some ps"
proof (induction refs arbitrary: q)
  case Nil
  then show ?case by simp
next
  case (Cons r refs)
  from Cons.prems obtain c where c: "TargetStruct r vr = Inr c"
    by (cases "TargetStruct r vr") simp_all
  from Cons.prems c obtain pv where g0: "Get c ParentsField = Inr pv"
    by (cases "Get c ParentsField") simp_all
  from Cons.prems c g0 obtain s where pv: "pv = SetV s"
    by (cases pv) (simp_all add: asSet_def)
  from Cons.prems c g0 pv obtain rs where rs: "refsOf (elems s) = Some rs"
    by (cases "refsOf (elems s)") (simp_all add: asSet_def pushParents_refsOf)
  from Cons.prems c g0 pv rs have rest: "parentsToQueueIter refs (q @ rs) vr = Inr q'"
    by (simp add: asSet_def pushParents_refsOf)
  from g0 pv rs have "parentRefs c = Some rs" by (auto simp: parentRefs_Some)
  with c Cons.IH[OF rest] show ?case by auto
qed

lemma reaches_then_parent:
  "reaches vr a x \<Longrightarrow> TargetStruct x vr = Inr c \<Longrightarrow> parentRefs c = Some ps \<Longrightarrow> p \<in> set ps \<Longrightarrow>
     reaches vr a p"
proof (induction rule: reaches.induct)
  case (here r)
  from reaches.parent[OF here(1,2,3) reaches.here] show ?case .
next
  case (parent q c' ps' p' r)
  from parent.IH[OF parent.prems] have "reaches vr p' p" .
  from reaches.parent[OF parent.hyps(1,2,3) this] show ?case .
qed

lemma expand_reaches:
  assumes e: "parentsToQueue (fst (PopRefsOfHeight q (MaxHeight q)))
              (snd (PopRefsOfHeight q (MaxHeight q))) vr = Inr q'"
    and r: "\<forall>x\<in>set q. reaches vr a x"
  shows "\<forall>x\<in>set q'. reaches vr a x"
proof
  fix x assume x: "x \<in> set q'"
  let ?ps = "filter (\<lambda>r. Height r = MaxHeight q) q"
  from parentsToQueue_Inr[OF e]
  have q': "set q' = set (filter (\<lambda>r. Height r \<noteq> MaxHeight q) q)
      \<union> (\<Union>r\<in>set ?ps. parentsOfRef vr r)"
    by (simp add: PopRefsOfHeight_def)
  from e obtain q0 where "parentsToQueueIter ?ps (filter (\<lambda>r. Height r \<noteq> MaxHeight q) q) vr = Inr q0"
    by (cases "parentsToQueueIter ?ps (filter (\<lambda>r. Height r \<noteq> MaxHeight q) q) vr")
       (auto simp: parentsToQueue_def PopRefsOfHeight_def)
  note pr = parentsToQueueIter_parentRefs[OF this]
  from x q' consider "x \<in> set q" | y where "y \<in> set ?ps" "x \<in> parentsOfRef vr y" by auto
  then show "reaches vr a x"
  proof cases
    case 1
    with r show ?thesis by simp
  next
    case 2
    from pr 2(1) obtain c ps where c: "TargetStruct y vr = Inr c" "parentRefs c = Some ps"
      by blast
    from parentsOfRef_parentRefs[OF c] 2(2) have "x \<in> set ps" by simp
    moreover from 2(1) r have "reaches vr a y" by simp
    ultimately show ?thesis using reaches_then_parent c by blast
  qed
qed

lemma FindCommonAncestorStep_Continue_cases:
  assumes "FindCommonAncestorStep rangeOrder vr c1Q c2Q = Inr (Continue q1 q2)"
  shows "(q1 = c1Q \<or> parentsToQueue (fst (PopRefsOfHeight c1Q (MaxHeight c1Q)))
              (snd (PopRefsOfHeight c1Q (MaxHeight c1Q))) vr = Inr q1)
       \<and> (q2 = c2Q \<or> parentsToQueue (fst (PopRefsOfHeight c2Q (MaxHeight c2Q)))
              (snd (PopRefsOfHeight c2Q (MaxHeight c2Q))) vr = Inr q2)"
proof -
  consider (eq) "MaxHeight c1Q = MaxHeight c2Q"
    | (gt) "MaxHeight c1Q > MaxHeight c2Q" | (lt) "MaxHeight c1Q < MaxHeight c2Q"
    by linarith
  then show ?thesis
  proof cases
    case eq
    with assms show ?thesis
      unfolding FindCommonAncestorStep_equal[OF eq]
      by (auto split: option.splits sum.splits)
  next
    case gt
    with assms show ?thesis
      unfolding FindCommonAncestorStep_greater[OF gt] by (auto split: sum.splits)
  next
    case lt
    with assms show ?thesis
      unfolding FindCommonAncestorStep_less[OF lt] by (auto split: sum.splits)
  qed
qed

text \<open>
  With heights going down and no target hash reached from both starting references,
  the loop returns with \<open>ok\<close> false, unless it panics.
\<close>

lemma FindCommonAncestorLoop_disjoint_or_panic:
  assumes ro: "isRangeOrder rangeOrder" and d: "descending vr R"
    and dis: "\<not> shareTarget vr r1 r2"
  shows "set c1Q \<subseteq> R \<Longrightarrow> set c2Q \<subseteq> R \<Longrightarrow>
         \<forall>a\<in>set c1Q. reaches vr r1 a \<Longrightarrow> \<forall>b\<in>set c2Q. reaches vr r2 b \<Longrightarrow>
         FindCommonAncestorLoop rangeOrder vr c1Q c2Q = Some (Inr None)
         \<or> (\<exists>e. FindCommonAncestorLoop rangeOrder vr c1Q c2Q = Some (Inl e))"
proof (induction "frontierRank c1Q + frontierRank c2Q" arbitrary: c1Q c2Q rule: less_induct)
  case less
  show ?case
  proof (cases "c1Q \<noteq> [] \<and> c2Q \<noteq> []")
    case False
    then have "FindCommonAncestorLoop rangeOrder vr c1Q c2Q = Some (Inr None)"
      by (subst FindCommonAncestorLoop.simps) auto
    then show ?thesis by simp
  next
    case True
    then have ne: "c1Q \<noteq> []" "c2Q \<noteq> []" by simp_all
    show ?thesis
    proof (cases "FindCommonAncestorStep rangeOrder vr c1Q c2Q")
      case (Inl e)
      with ne have "FindCommonAncestorLoop rangeOrder vr c1Q c2Q = Some (Inl e)"
        by (subst FindCommonAncestorLoop.simps) simp
      then show ?thesis by blast
    next
      case (Inr sr)
      show ?thesis
      proof (cases sr)
        case (Return c)
        from FindCommonAncestorStep_Return[OF Inr[unfolded Return]] obtain common where
          "findCommonRef rangeOrder (fst (PopRefsOfHeight c1Q (MaxHeight c1Q)))
             (fst (PopRefsOfHeight c2Q (MaxHeight c2Q))) = Some common" by blast
        from findCommonRef_Some[OF ro this] obtain b where
          "common \<in> set c1Q" "b \<in> set c2Q" "TargetHash common = TargetHash b"
          by (auto simp: PopRefsOfHeight_def)
        with less.prems(3,4) dis have False unfolding shareTarget_def by blast
        then show ?thesis ..
      next
        case (Continue q1 q2)
        note st = Inr[unfolded Continue]
        from FindCommonAncestorStep_Continue[OF d less.prems(1,2) ne st]
        have sub: "set q1 \<subseteq> R" "set q2 \<subseteq> R"
          and rk: "frontierRank q1 + frontierRank q2 < frontierRank c1Q + frontierRank c2Q"
          by auto
        from FindCommonAncestorStep_Continue_cases[OF st] less.prems(3,4)
          expand_reaches[of c1Q vr q1 r1] expand_reaches[of c2Q vr q2 r2]
        have "\<forall>a\<in>set q1. reaches vr r1 a" "\<forall>b\<in>set q2. reaches vr r2 b" by metis+
        from less.hyps[OF rk sub this] FindCommonAncestorLoop_Continue[OF ne st]
        show ?thesis by simp
      qed
    qed
  qed
qed

text \<open>
  C5, as the code has it. For two commits of commit type: when the references follow
  the height rule and no references with one target hash are reached from both,
  \<open>FindCommonAncestor\<close> returns with \<open>ok\<close> false, unless it panics on a reference that
  the reader does not resolve to a commit. When the references to the two commits lie
  in a set of references, closed under \<open>parents\<close>, of which each resolves to a commit
  with lower parents, and which agree on the height of a target,
  \<open>FindCommonAncestor\<close> returns normally; it returns with \<open>ok\<close> false exactly when no
  references with one target hash are reached from both, and exactly when the loop,
  through iterations that found no shared reference, arrives at frontiers of which one
  is empty.
\<close>

theorem FindCommonAncestor_no_common_ancestor:
  assumes "isRangeOrder rangeOrder"
    and "IsCommitType IsSubtype (structType c1)" and "IsCommitType IsSubtype (structType c2)"
  shows "(heightsByRule vr \<longrightarrow> heightRule vr (NewRef hashOf (StructV c1)) \<longrightarrow>
            heightRule vr (NewRef hashOf (StructV c2)) \<longrightarrow>
            \<not> shareTarget vr (NewRef hashOf (StructV c1)) (NewRef hashOf (StructV c2)) \<longrightarrow>
            FindCommonAncestor IsSubtype hashOf rangeOrder c1 c2 vr = Some (Inr None)
            \<or> (\<exists>e. FindCommonAncestor IsSubtype hashOf rangeOrder c1 c2 vr = Some (Inl e)))
       \<and> (\<forall>R. commitRefs vr R \<longrightarrow> NewRef hashOf (StructV c1) \<in> R \<longrightarrow>
              NewRef hashOf (StructV c2) \<in> R \<longrightarrow> sameHashSameHeight R \<longrightarrow>
            (\<exists>res. FindCommonAncestor IsSubtype hashOf rangeOrder c1 c2 vr = Some (Inr res))
            \<and> (FindCommonAncestor IsSubtype hashOf rangeOrder c1 c2 vr = Some (Inr None) \<longleftrightarrow>
                 \<not> shareTarget vr (NewRef hashOf (StructV c1)) (NewRef hashOf (StructV c2)))
            \<and> (FindCommonAncestor IsSubtype hashOf rangeOrder c1 c2 vr = Some (Inr None) \<longleftrightarrow>
                 (\<exists>q1' q2'. frontiersAfter rangeOrder vr
                     [NewRef hashOf (StructV c1)] [NewRef hashOf (StructV c2)] q1' q2'
                   \<and> (q1' = [] \<or> q2' = []))))"
proof -
  let ?r1 = "NewRef hashOf (StructV c1)" and ?r2 = "NewRef hashOf (StructV c2)"
  let ?F = "FindCommonAncestor IsSubtype hashOf rangeOrder c1 c2 vr"
  have F: "?F = FindCommonAncestorLoop rangeOrder vr [?r1] [?r2]"
    using assms(2,3) by (simp add: FindCommonAncestor_def)
  have byRule: "?F = Some (Inr None) \<or> (\<exists>e. ?F = Some (Inl e))"
    if "heightsByRule vr" "heightRule vr ?r1" "heightRule vr ?r2" "\<not> shareTarget vr ?r1 ?r2"
    unfolding F
    by (rule FindCommonAncestorLoop_disjoint_or_panic[OF assms(1)
          heightsByRule_descending[OF that(1)] that(4)])
       (use that(2,3) in \<open>auto intro: reaches.here\<close>)
  have closed: "(\<exists>res. ?F = Some (Inr res))
      \<and> (?F = Some (Inr None) \<longleftrightarrow> \<not> shareTarget vr ?r1 ?r2)
      \<and> (?F = Some (Inr None) \<longleftrightarrow>
           (\<exists>q1' q2'. frontiersAfter rangeOrder vr [?r1] [?r2] q1' q2' \<and> (q1' = [] \<or> q2' = [])))"
    if cr: "commitRefs vr R" and r: "?r1 \<in> R" "?r2 \<in> R" and sh: "sameHashSameHeight R" for R
  proof -
    have none: "?F = Some (Inr None)" if "\<not> shareTarget vr ?r1 ?r2"
      unfolding F
      by (rule FindCommonAncestorLoop_disjoint[OF assms(1) cr r])
         (use that r in \<open>auto simp: shareTarget_def intro: reaches.here\<close>)
    have some: "\<exists>c. ?F = Some (Inr (Some c))" if "shareTarget vr ?r1 ?r2"
    proof -
      from that obtain a b where "reaches vr ?r1 a" "reaches vr ?r2 b" "TargetHash a = TargetHash b"
        unfolding shareTarget_def by blast
      from FindCommonAncestorLoop_shared[OF assms(1) cr sh _ _ _ this(1) _ this(2,3),
          of "[?r1]" "[?r2]"] r
      show ?thesis unfolding F by simp
    qed
    have mech: "?F = Some (Inr None) \<longleftrightarrow>
        (\<exists>q1' q2'. frontiersAfter rangeOrder vr [?r1] [?r2] q1' q2' \<and> (q1' = [] \<or> q2' = []))"
      unfolding F using None_frontiersAfter frontiersAfter_None by blast
    from none some mech show ?thesis by (cases "shareTarget vr ?r1 ?r2") auto
  qed
  from byRule closed show ?thesis by blast
qed

lemma exRootA_reaches: "reaches exStore r a \<Longrightarrow> r = exRef exRootA \<Longrightarrow> a = exRef exRootA"
proof (induction rule: reaches.induct)
  case (here r)
  then show ?case by simp
next
  case (parent q c ps p r)
  have "TargetStruct (exRef exRootA) exStore = Inr exRootA" by code_simp
  moreover have "parentRefs exRootA = Some []" by code_simp
  ultimately show ?case using parent.hyps(1,2,3) parent.prems by simp
qed

lemma exRootB_reaches: "reaches exStore r b \<Longrightarrow> r = exRef exRootB \<Longrightarrow> b = exRef exRootB"
proof (induction rule: reaches.induct)
  case (here r)
  then show ?case by simp
next
  case (parent q c ps p r)
  have "TargetStruct (exRef exRootB) exStore = Inr exRootB" by code_simp
  moreover have "parentRefs exRootB = Some []" by code_simp
  ultimately show ?case using parent.hyps(1,2,3) parent.prems by simp
qed

lemma sameHashSameHeight_list:
  assumes "list_all (\<lambda>a. list_all (\<lambda>b. TargetHash a \<noteq> TargetHash b \<or> Height a = Height b) L) L"
  shows "sameHashSameHeight (set L)"
  using assms unfolding sameHashSameHeight_def list_all_iff by blast

lemma exRefs_sameHashSameHeight: "sameHashSameHeight (set exRefs)"
  by (rule sameHashSameHeight_list) code_simp

lemma exRoots_share_nothing: "\<not> shareTarget exStore (exRef exRootA) (exRef exRootB)"
proof
  assume "shareTarget exStore (exRef exRootA) (exRef exRootB)"
  then obtain a b where "reaches exStore (exRef exRootA) a" "reaches exStore (exRef exRootB) b"
    and ab: "TargetHash a = TargetHash b"
    unfolding shareTarget_def by blast
  with exRootA_reaches exRootB_reaches have "a = exRef exRootA" "b = exRef exRootB" by blast+
  moreover have "TargetHash (exRef exRootA) \<noteq> TargetHash (exRef exRootB)" by code_simp
  ultimately show False using ab by simp
qed

lemma exMid_exOther_share: "shareTarget exStore (exRef exMid) (exRef exOther)"
proof -
  have "reaches exStore (exRef exMid) (exRef exRootA)"
  proof (rule reaches.parent)
    show "TargetStruct (exRef exMid) exStore = Inr exMid" by code_simp
    show "parentRefs exMid = Some [exRef exRootA]" by code_simp
    show "exRef exRootA \<in> set [exRef exRootA]" by simp
    show "reaches exStore (exRef exRootA) (exRef exRootA)" by (rule reaches.here)
  qed
  moreover have "reaches exStore (exRef exOther) (exRef exRootA)"
  proof (rule reaches.parent)
    show "TargetStruct (exRef exOther) exStore = Inr exOther" by code_simp
    show "parentRefs exOther = Some [exRef exRootA]" by code_simp
    show "exRef exRootA \<in> set [exRef exRootA]" by simp
    show "reaches exStore (exRef exRootA) (exRef exRootA)" by (rule reaches.here)
  qed
  ultimately show ?thesis unfolding shareTarget_def by blast
qed

theorem FindCommonAncestor_no_common_ancestor_witness:
  "FindCommonAncestor IsSubtypeModel exHash id exRootA exRootB exStore = Some (Inr None)
   \<and> FindCommonAncestor IsSubtypeModel exHash id exMid exOther exStore \<noteq> Some (Inr None)
   \<and> (\<exists>res. FindCommonAncestor IsSubtypeModel exHash id exMid exOther exStore = Some (Inr res))"
proof -
  have ro: "isRangeOrder id" by (simp add: isRangeOrder_def)
  have t: "IsCommitType IsSubtypeModel (structType exRootA)"
    "IsCommitType IsSubtypeModel (structType exRootB)"
    "IsCommitType IsSubtypeModel (structType exMid)"
    "IsCommitType IsSubtypeModel (structType exOther)"
    by code_simp+
  have r: "NewRef exHash (StructV exRootA) \<in> set exRefs"
    "NewRef exHash (StructV exRootB) \<in> set exRefs"
    "NewRef exHash (StructV exMid) \<in> set exRefs"
    "NewRef exHash (StructV exOther) \<in> set exRefs"
    by code_simp+
  have h: "heightRule exStore (NewRef exHash (StructV exRootA))"
    "heightRule exStore (NewRef exHash (StructV exRootB))"
    by code_simp+
  note roots = FindCommonAncestor_no_common_ancestor[OF ro t(1,2), of exStore exHash]
  note mids = FindCommonAncestor_no_common_ancestor[OF ro t(3,4), of exStore exHash]
  from roots exStore_heightsByRule h exRoots_share_nothing
  have "FindCommonAncestor IsSubtypeModel exHash id exRootA exRootB exStore = Some (Inr None)
      \<or> (\<exists>e. FindCommonAncestor IsSubtypeModel exHash id exRootA exRootB exStore = Some (Inl e))"
    unfolding exRef_def by blast
  moreover from roots exStore_commitRefs r(1,2) exRefs_sameHashSameHeight exRoots_share_nothing
  have a: "FindCommonAncestor IsSubtypeModel exHash id exRootA exRootB exStore = Some (Inr None)"
    unfolding exRef_def by blast
  moreover from mids exStore_commitRefs r(3,4) exRefs_sameHashSameHeight exMid_exOther_share
  have b: "FindCommonAncestor IsSubtypeModel exHash id exMid exOther exStore \<noteq> Some (Inr None)"
    and c: "\<exists>res. FindCommonAncestor IsSubtypeModel exHash id exMid exOther exStore = Some (Inr res)"
    unfolding exRef_def by blast+
  ultimately show ?thesis by simp
qed

lemma empty_reader_reaches: "reaches (\<lambda>h. None) r a \<Longrightarrow> a = r"
  by (erule reaches.cases) (simp_all add: TargetStruct_def TargetValue_def)

text \<open>
  The claim as stated fails: the two roots \<open>exRootA\<close> and \<open>exRootB\<close> share no target
  hash, and with a reader that holds neither of them the search panics when it
  dereferences the reference to the first, where the claim promises the normal return
  with \<open>ok\<close> false.
\<close>

theorem FindCommonAncestor_missing_commit_counterexample:
  "IsCommitType IsSubtypeModel (structType exRootA)
   \<and> IsCommitType IsSubtypeModel (structType exRootB)
   \<and> \<not> shareTarget (\<lambda>h. None) (NewRef exHash (StructV exRootA)) (NewRef exHash (StructV exRootB))
   \<and> FindCommonAncestor IsSubtypeModel exHash id exRootA exRootB (\<lambda>h. None)
       = Some (Inl TypeAssertion)"
proof -
  have t: "IsCommitType IsSubtypeModel (structType exRootA)"
    "IsCommitType IsSubtypeModel (structType exRootB)"
    by code_simp+
  have ne: "TargetHash (NewRef exHash (StructV exRootA)) \<noteq> TargetHash (NewRef exHash (StructV exRootB))"
    by code_simp
  have "\<not> shareTarget (\<lambda>h. None) (NewRef exHash (StructV exRootA)) (NewRef exHash (StructV exRootB))"
    unfolding shareTarget_def using empty_reader_reaches ne by metis
  moreover have "FindCommonAncestor IsSubtypeModel exHash id exRootA exRootB (\<lambda>h. None)
       = Some (Inl TypeAssertion)"
    by code_simp
  ultimately show ?thesis using t by simp
qed

subsection \<open>Swapping the arguments of the search\<close>

lemma isRangeOrder_visitFirst: "isRangeOrder (visitFirst s)"
  by (auto simp: isRangeOrder_def visitFirst_def)

lemma TargetStruct_hash: "TargetHash r = TargetHash r' \<Longrightarrow> TargetStruct r vr = TargetStruct r' vr"
  by (simp add: TargetStruct_def TargetValue_def)

lemma findCommonRef_visitFirst:
  assumes "s \<in> TargetHash ` set a" and "s \<in> TargetHash ` set b"
  shows "\<exists>r. findCommonRef (visitFirst s) a b = Some r \<and> TargetHash r = s"
proof -
  from assms(1) have "s \<in> fst ` set (toRefSet a)" by (simp add: toRefSet_keys)
  then obtain e es where f: "filter (\<lambda>e. fst e = s) (toRefSet a) = e # es"
    by (cases "filter (\<lambda>e. fst e = s) (toRefSet a)") (auto simp: filter_empty_conv)
  then have "e \<in> set (filter (\<lambda>e. fst e = s) (toRefSet a))" by simp
  then have e: "e \<in> set (toRefSet a)" "fst e = s" by auto
  obtain k r where kr: "e = (k, r)" by (cases e)
  from e kr toRefSet_entries[of k r a] have r: "TargetHash r = s" by simp
  from assms(2) have "map_of (toRefSet b) s \<noteq> None" by (simp add: map_of_toRefSet)
  with f e kr have "find (\<lambda>(s', r). map_of (toRefSet b) s' \<noteq> None) (visitFirst s (toRefSet a))
      = Some (k, r)"
    by (simp add: visitFirst_def)
  then have "findCommonRef (visitFirst s) a b = Some r"
    by (simp add: findCommonRef_def Let_def)
  with r show ?thesis by blast
qed

lemma findCommonRef_None_swap:
  assumes "isRangeOrder rangeOrder" and "isRangeOrder rangeOrder'"
    and "findCommonRef rangeOrder a b = None"
  shows "findCommonRef rangeOrder' b a = None" and "findCommonRef rangeOrder' a b = None"
  using assms(3) findCommonRef_None[OF assms(1), of a b]
    findCommonRef_None[OF assms(2), of b a] findCommonRef_None[OF assms(2), of a b]
  by auto

text \<open>
  An iteration that goes on does so whatever the iteration order, and the search with
  the arguments swapped goes on to the swapped frontiers.
\<close>

lemma FindCommonAncestorStep_Continue_any:
  assumes ro: "isRangeOrder rangeOrder" "isRangeOrder rangeOrder'"
    and s: "FindCommonAncestorStep rangeOrder vr c1Q c2Q = Inr (Continue q1 q2)"
  shows "FindCommonAncestorStep rangeOrder' vr c1Q c2Q = Inr (Continue q1 q2)"
    and "FindCommonAncestorStep rangeOrder' vr c2Q c1Q = Inr (Continue q2 q1)"
proof -
  let ?p1 = "fst (PopRefsOfHeight c1Q (MaxHeight c1Q))"
  let ?p2 = "fst (PopRefsOfHeight c2Q (MaxHeight c2Q))"
  let ?e1 = "parentsToQueue ?p1 (snd (PopRefsOfHeight c1Q (MaxHeight c1Q))) vr"
  let ?e2 = "parentsToQueue ?p2 (snd (PopRefsOfHeight c2Q (MaxHeight c2Q))) vr"
  consider (eq) "MaxHeight c1Q = MaxHeight c2Q"
    | (gt) "MaxHeight c1Q > MaxHeight c2Q" | (lt) "MaxHeight c1Q < MaxHeight c2Q"
    by linarith
  then have "FindCommonAncestorStep rangeOrder' vr c1Q c2Q = Inr (Continue q1 q2)
      \<and> FindCommonAncestorStep rangeOrder' vr c2Q c1Q = Inr (Continue q2 q1)"
  proof cases
    case eq
    from s have none: "findCommonRef rangeOrder ?p1 ?p2 = None"
      unfolding FindCommonAncestorStep_equal[OF eq]
      by (cases "findCommonRef rangeOrder ?p1 ?p2") (auto split: sum.splits)
    with s have e: "?e1 = Inr q1" "?e2 = Inr q2"
      unfolding FindCommonAncestorStep_equal[OF eq]
      by (auto split: sum.splits)
    from findCommonRef_None_swap[OF ro none]
    have n': "findCommonRef rangeOrder' ?p2 ?p1 = None" "findCommonRef rangeOrder' ?p1 ?p2 = None" .
    show ?thesis
      unfolding FindCommonAncestorStep_equal[OF eq] FindCommonAncestorStep_equal[OF eq[symmetric]]
      using e n' by simp
  next
    case gt
    from s have e: "?e1 = Inr q1" "q2 = c2Q"
      unfolding FindCommonAncestorStep_greater[OF gt] by (auto split: sum.splits)
    show ?thesis
      unfolding FindCommonAncestorStep_greater[OF gt] FindCommonAncestorStep_less[OF gt]
      using e by simp
  next
    case lt
    from s have e: "?e2 = Inr q2" "q1 = c1Q"
      unfolding FindCommonAncestorStep_less[OF lt] by (auto split: sum.splits)
    show ?thesis
      unfolding FindCommonAncestorStep_less[OF lt] FindCommonAncestorStep_greater[OF lt]
      using e by simp
  qed
  then show "FindCommonAncestorStep rangeOrder' vr c1Q c2Q = Inr (Continue q1 q2)"
    and "FindCommonAncestorStep rangeOrder' vr c2Q c1Q = Inr (Continue q2 q1)"
    by simp_all
qed

lemma FindCommonAncestorLoop_swap:
  assumes "FindCommonAncestorLoop rangeOrder0 vr c1Q c2Q = Some res"
  shows "isRangeOrder rangeOrder0 \<longrightarrow>
     (\<forall>rangeOrder. isRangeOrder rangeOrder \<longrightarrow>
        FindCommonAncestorLoop rangeOrder vr c1Q c2Q = Some (Inr (Some a))) \<longrightarrow>
     (\<forall>rangeOrder2. isRangeOrder rangeOrder2 \<longrightarrow>
        FindCommonAncestorLoop rangeOrder2 vr c2Q c1Q = Some (Inr (Some a)))"
proof (rule FindCommonAncestorLoop.raw_induct[where P = "\<lambda>rangeOrder0 vr c1Q c2Q res.
     isRangeOrder rangeOrder0 \<longrightarrow>
     (\<forall>rangeOrder. isRangeOrder rangeOrder \<longrightarrow>
        FindCommonAncestorLoop rangeOrder vr c1Q c2Q = Some (Inr (Some a))) \<longrightarrow>
     (\<forall>rangeOrder2. isRangeOrder rangeOrder2 \<longrightarrow>
        FindCommonAncestorLoop rangeOrder2 vr c2Q c1Q = Some (Inr (Some a)))",
    OF _ assms], goal_cases)
  case (1 loop rangeOrder0 vr c1Q c2Q res)
  show ?case
  proof (intro impI allI)
    fix rangeOrder2
    assume ro0: "isRangeOrder rangeOrder0" and ro2: "isRangeOrder rangeOrder2"
      and all: "\<forall>rangeOrder. isRangeOrder rangeOrder \<longrightarrow>
        FindCommonAncestorLoop rangeOrder vr c1Q c2Q = Some (Inr (Some a))"
    from all ro0 have l0: "FindCommonAncestorLoop rangeOrder0 vr c1Q c2Q = Some (Inr (Some a))"
      by simp
    have ne: "c1Q \<noteq> []" "c2Q \<noteq> []"
      using l0 by (subst (asm) FindCommonAncestorLoop.simps, auto split: if_splits)+
    show "FindCommonAncestorLoop rangeOrder2 vr c2Q c1Q = Some (Inr (Some a))"
    proof (cases "FindCommonAncestorStep rangeOrder0 vr c1Q c2Q")
      case (Inl e)
      with l0 ne show ?thesis by (subst (asm) FindCommonAncestorLoop.simps) simp
    next
      case (Inr sr)
      show ?thesis
      proof (cases sr)
        case (Return x)
        from FindCommonAncestorStep_Return[OF Inr[unfolded Return]]
        have eq: "MaxHeight c1Q = MaxHeight c2Q" by simp
        let ?p1 = "fst (PopRefsOfHeight c1Q (MaxHeight c1Q))"
        let ?p2 = "fst (PopRefsOfHeight c2Q (MaxHeight c2Q))"
        from FindCommonAncestorStep_Return[OF Inr[unfolded Return]]
        have "findCommonRef rangeOrder0 ?p1 ?p2 \<noteq> None" by auto
        with findCommonRef_None[OF ro0, of ?p1 ?p2] findCommonRef_None[OF ro2, of ?p2 ?p1]
        obtain r2 where r2: "findCommonRef rangeOrder2 ?p2 ?p1 = Some r2" by auto
        from findCommonRef_Some[OF ro2 r2]
        have s: "TargetHash r2 \<in> TargetHash ` set ?p2" "TargetHash r2 \<in> TargetHash ` set ?p1"
          by auto
        from findCommonRef_visitFirst[OF s(2,1)] obtain r1 where
          r1: "findCommonRef (visitFirst (TargetHash r2)) ?p1 ?p2 = Some r1"
          and h: "TargetHash r1 = TargetHash r2" by blast
        have l1: "FindCommonAncestorLoop (visitFirst (TargetHash r2)) vr c1Q c2Q
            = Some (Inr (Some a))"
          using all isRangeOrder_visitFirst by blast
        have step: "FindCommonAncestorStep (visitFirst (TargetHash r2)) vr c1Q c2Q
            = (case TargetStruct r1 vr of Inl e \<Rightarrow> Inl e | Inr y \<Rightarrow> Inr (Return y))"
          using r1 by (simp add: FindCommonAncestorStep_equal[OF eq])
        have "TargetStruct r1 vr = Inr a"
        proof (cases "TargetStruct r1 vr")
          case (Inl e)
          with step have "FindCommonAncestorLoop (visitFirst (TargetHash r2)) vr c1Q c2Q
              = Some (Inl e)"
            using ne by (subst FindCommonAncestorLoop.simps) simp
          with l1 show ?thesis by simp
        next
          case (Inr y)
          with step have "FindCommonAncestorStep (visitFirst (TargetHash r2)) vr c1Q c2Q
              = Inr (Return y)" by simp
          from FindCommonAncestorLoop_Return[OF ne this] l1 Inr show ?thesis by simp
        qed
        with TargetStruct_hash[OF h, of vr] have "TargetStruct r2 vr = Inr a" by simp
        with r2 have "FindCommonAncestorStep rangeOrder2 vr c2Q c1Q = Inr (Return a)"
          by (simp add: FindCommonAncestorStep_equal[OF eq[symmetric]])
        from FindCommonAncestorLoop_Return[OF ne(2,1) this] show ?thesis .
      next
        case (Continue q1 q2)
        note st = Inr[unfolded Continue]
        from 1(2) ne st have l: "loop rangeOrder0 vr q1 q2 = Some res" by simp
        have all': "\<forall>rangeOrder. isRangeOrder rangeOrder \<longrightarrow>
            FindCommonAncestorLoop rangeOrder vr q1 q2 = Some (Inr (Some a))"
        proof (intro allI impI)
          fix rangeOrder assume ro: "isRangeOrder rangeOrder"
          from FindCommonAncestorLoop_Continue[OF ne FindCommonAncestorStep_Continue_any(1)[OF ro0 ro st]]
            all ro
          show "FindCommonAncestorLoop rangeOrder vr q1 q2 = Some (Inr (Some a))" by simp
        qed
        from 1(1)[OF l] ro0 all' ro2
        have "FindCommonAncestorLoop rangeOrder2 vr q2 q1 = Some (Inr (Some a))" by blast
        with FindCommonAncestorLoop_Continue[OF ne(2,1)
            FindCommonAncestorStep_Continue_any(2)[OF ro0 ro2 st]]
        show ?thesis by simp
      qed
    qed
  qed
qed

text \<open>
  C6, as the code has it. When \<open>FindCommonAncestor\<close> for \<open>c1\<close> and \<open>c2\<close> returns the
  commit \<open>a\<close> whatever the order in which the map of candidate references is iterated
  (there is no tie between several shared references), \<open>FindCommonAncestor\<close> for \<open>c2\<close>
  and \<open>c1\<close> returns \<open>a\<close> as well.
\<close>

theorem FindCommonAncestor_symmetric_without_tie:
  assumes "\<forall>rangeOrder. isRangeOrder rangeOrder \<longrightarrow>
       FindCommonAncestor IsSubtype hashOf rangeOrder c1 c2 vr = Some (Inr (Some a))"
    and "isRangeOrder rangeOrder2"
  shows "FindCommonAncestor IsSubtype hashOf rangeOrder2 c2 c1 vr = Some (Inr (Some a))"
proof -
  have ro: "isRangeOrder id" by (simp add: isRangeOrder_def)
  from assms(1) ro have f: "FindCommonAncestor IsSubtype hashOf id c1 c2 vr = Some (Inr (Some a))"
    by blast
  then have t: "IsCommitType IsSubtype (structType c1)" "IsCommitType IsSubtype (structType c2)"
    by (auto simp: FindCommonAncestor_def split: if_splits)
  let ?r1 = "NewRef hashOf (StructV c1)" and ?r2 = "NewRef hashOf (StructV c2)"
  from assms(1) t have all: "\<forall>rangeOrder. isRangeOrder rangeOrder \<longrightarrow>
       FindCommonAncestorLoop rangeOrder vr [?r1] [?r2] = Some (Inr (Some a))"
    by (simp add: FindCommonAncestor_def)
  with ro have "FindCommonAncestorLoop id vr [?r1] [?r2] = Some (Inr (Some a))" by blast
  from FindCommonAncestorLoop_swap[OF this] ro all assms(2)
  have "FindCommonAncestorLoop rangeOrder2 vr [?r2] [?r1] = Some (Inr (Some a))" by blast
  with t show ?thesis by (simp add: FindCommonAncestor_def)
qed

lemma find_single:
  assumes "set xs = {e}"
  shows "find P xs = (if P e then Some e else None)"
proof (cases xs)
  case Nil
  with assms show ?thesis by simp
next
  case (Cons y ys)
  with assms have y: "y = e" and ys: "set ys \<subseteq> {e}" by auto
  from ys have "\<not> P e \<Longrightarrow> find P ys = None" by (auto simp: find_None_iff)
  with Cons y show ?thesis by simp
qed

lemma findCommonRef_single:
  assumes "isRangeOrder rangeOrder"
  shows "findCommonRef rangeOrder [x] [y] = (if TargetHash x = TargetHash y then Some x else None)"
proof -
  have "set (rangeOrder [(TargetHash x, x)]) = {(TargetHash x, x)}"
    using assms by (simp add: isRangeOrder_def)
  from find_single[OF this] show ?thesis
    by (simp add: findCommonRef_def toRefSet_def)
qed

lemma exMid_exOther_no_tie:
  assumes "isRangeOrder rangeOrder"
  shows "FindCommonAncestor IsSubtypeModel exHash rangeOrder exMid exOther exStore
           = Some (Inr (Some exRootA))"
proof -
  have t: "IsCommitType IsSubtypeModel (structType exMid)"
    "IsCommitType IsSubtypeModel (structType exOther)"
    by code_simp+
  have h1: "MaxHeight [exRef exMid] = MaxHeight [exRef exOther]" by code_simp
  have p1: "PopRefsOfHeight [exRef exMid] (MaxHeight [exRef exMid]) = ([exRef exMid], [])"
    "PopRefsOfHeight [exRef exOther] (MaxHeight [exRef exOther]) = ([exRef exOther], [])"
    by code_simp+
  have ne: "TargetHash (exRef exMid) \<noteq> TargetHash (exRef exOther)" by code_simp
  have e: "parentsToQueue [exRef exMid] [] exStore = Inr [exRef exRootA]"
    "parentsToQueue [exRef exOther] [] exStore = Inr [exRef exRootA]"
    by code_simp+
  have s1: "FindCommonAncestorStep rangeOrder exStore [exRef exMid] [exRef exOther]
      = Inr (Continue [exRef exRootA] [exRef exRootA])"
    unfolding FindCommonAncestorStep_equal[OF h1]
    by (simp add: p1 findCommonRef_single[OF assms] ne e)
  have p2: "PopRefsOfHeight [exRef exRootA] (MaxHeight [exRef exRootA]) = ([exRef exRootA], [])"
    by code_simp
  have ts: "TargetStruct (exRef exRootA) exStore = Inr exRootA" by code_simp
  have s2: "FindCommonAncestorStep rangeOrder exStore [exRef exRootA] [exRef exRootA]
      = Inr (Return exRootA)"
    unfolding FindCommonAncestorStep_equal[OF refl]
    by (simp add: p2 findCommonRef_single[OF assms] ts)
  have "FindCommonAncestorLoop rangeOrder exStore [exRef exMid] [exRef exOther]
      = Some (Inr (Some exRootA))"
    using FindCommonAncestorLoop_Continue[OF _ _ s1] FindCommonAncestorLoop_Return[OF _ _ s2]
    by simp
  with t show ?thesis by (simp add: FindCommonAncestor_def exRef_def)
qed

theorem FindCommonAncestor_symmetric_without_tie_witness:
  "FindCommonAncestor IsSubtypeModel exHash id exOther exMid exStore = Some (Inr (Some exRootA))"
proof (rule FindCommonAncestor_symmetric_without_tie)
  show "\<forall>rangeOrder. isRangeOrder rangeOrder \<longrightarrow>
       FindCommonAncestor IsSubtypeModel exHash rangeOrder exMid exOther exStore
         = Some (Inr (Some exRootA))"
    using exMid_exOther_no_tie by blast
  show "isRangeOrder id" by (simp add: isRangeOrder_def)
qed

text \<open>
  The claim as stated fails: \<open>exLeft\<close> and \<open>exRight\<close> have the two roots as parents, both
  shared at height 1. Iterating the map of candidates in one order, the search for
  \<open>exLeft\<close> and \<open>exRight\<close> returns \<open>exRootB\<close>; iterating it in the reverse order, the
  search for \<open>exRight\<close> and \<open>exLeft\<close> returns \<open>exRootA\<close>.
\<close>

theorem FindCommonAncestor_symmetric_counterexample:
  "FindCommonAncestor IsSubtypeModel exHash id exLeft exRight exStore = Some (Inr (Some exRootB))
   \<and> FindCommonAncestor IsSubtypeModel exHash rev exRight exLeft exStore
       = Some (Inr (Some exRootA))
   \<and> exRootA \<noteq> exRootB"
  by code_simp

end
